theory Spec2Isabelle
  imports Main "HOL-Library.Word" "HOL-Library.Signed_Division"
begin

unbundle bit_operations_syntax

section \<open>Machine types and error codes\<close>

type_synonym u8 = "8 word"
type_synonym u16 = "16 word"
type_synonym u32 = "32 word"
type_synonym u64 = "64 word"
type_synonym s32 = "32 word"
type_synonym s64 = "64 word"

text \<open>The errno values used by the kernel (the usual Linux numbering).\<close>

definition ENOENT :: int where "ENOENT = 2"
definition EBADF :: int where "EBADF = 9"
definition ENOMEM :: int where "ENOMEM = 12"
definition EFAULT :: int where "EFAULT = 14"
definition EINVAL :: int where "EINVAL = 22"

section \<open>PCI configuration space: the legacy I/O-port backend (pci.c)\<close>

text \<open>
  Modelled from the spec: \<open>struct pci_device_loc\<close> and \<open>pci_make_loc\<close>, whose
  header is not among the sources. A location is a segment, a bus, a device in
  \<open>0..31\<close> and a function in \<open>0..7\<close> (the bit-fields \<open>dev:5\<close> and \<open>func:3\<close>),
  as the address \<open>(bus << 16) | (dev << 11) | (func << 8)\<close> of the source has them.
\<close>

record pci_device_loc =
  seg :: u16
  bus :: u8
  dev :: "5 word"
  func :: "3 word"

definition pci_make_loc :: "u16 \<Rightarrow> u8 \<Rightarrow> 5 word \<Rightarrow> 3 word \<Rightarrow> pci_device_loc" where
  "pci_make_loc sg b d f = \<lparr>seg = sg, bus = b, dev = d, func = f\<rparr>"

text \<open>
  The port-I/O primitives are external. A read of the data port answers for the address
  that was last written to \<open>PCI_CONFIG_ADDRESS\<close>, so the three input primitives take that
  address and the data port.
\<close>

record pci_hw =
  inb :: "u32 \<Rightarrow> u16 \<Rightarrow> u8"
  inw :: "u32 \<Rightarrow> u16 \<Rightarrow> u16"
  inl :: "u32 \<Rightarrow> u16 \<Rightarrow> u32"

datatype io_event = Outb u16 u8 | Outw u16 u16 | Outl u16 u32

definition PCI_CONFIG_ADDRESS :: u16 where "PCI_CONFIG_ADDRESS = 0xcf8"
definition PCI_CONFIG_DATA :: u16 where "PCI_CONFIG_DATA = 0xcfc"

definition pci_ioport_addr :: "pci_device_loc \<Rightarrow> u32 \<Rightarrow> u32" where
  "pci_ioport_addr loc off =
     0x80000000 OR push_bit 16 (ucast (bus loc)) OR push_bit 11 (ucast (dev loc))
       OR push_bit 8 (ucast (func loc)) OR (off AND NOT 3)"

definition pci_ioport_data_port :: "u32 \<Rightarrow> u16" where
  "pci_ioport_data_port off = PCI_CONFIG_DATA + ucast (off AND 3)"

text \<open>
  \<open>pci_ioport_config_read\<close>: the return code and, when it is 0, the value stored
  through \<open>val\<close>.
\<close>

definition pci_ioport_config_read ::
  "pci_hw \<Rightarrow> pci_device_loc \<Rightarrow> u32 \<Rightarrow> u32 \<Rightarrow> int \<times> u32 option" where
  "pci_ioport_config_read hw loc off width =
     (let addr = pci_ioport_addr loc off;
          data_port = pci_ioport_data_port off
      in if seg loc \<noteq> 0 then (- EINVAL, None)
         else if off \<ge> 256 \<or> off AND (drop_bit 3 width - 1) \<noteq> 0 then (- EINVAL, None)
         else if width = 8 then (0, Some (ucast (inb hw addr data_port)))
         else if width = 16 then (0, Some (ucast (inw hw addr data_port)))
         else if width = 32 then (0, Some (inl hw addr data_port))
         else (- EINVAL, None))"

text \<open>
  \<open>pci_ioport_config_write\<close>: the return code and the port writes performed, in
  order.
\<close>

definition pci_ioport_config_write ::
  "pci_device_loc \<Rightarrow> u32 \<Rightarrow> u32 \<Rightarrow> u32 \<Rightarrow> int \<times> io_event list" where
  "pci_ioport_config_write loc off width v =
     (let addr = pci_ioport_addr loc off;
          data_port = pci_ioport_data_port off
      in if seg loc \<noteq> 0 then (- EINVAL, [])
         else if off \<ge> 256 \<or> off AND (drop_bit 3 width - 1) \<noteq> 0 then (- EINVAL, [])
         else if width = 8 then (0, [Outl PCI_CONFIG_ADDRESS addr, Outb data_port (ucast v)])
         else if width = 16 then (0, [Outl PCI_CONFIG_ADDRESS addr, Outw data_port (ucast v)])
         else if width = 32 then (0, [Outl PCI_CONFIG_ADDRESS addr, Outl data_port v])
         else (- EINVAL, [Outl PCI_CONFIG_ADDRESS addr]))"

section \<open>Timekeeping (datetime.c)\<close>

text \<open>
  The build-time constants. \<open>TIMER_HZ\<close> and \<open>TS_SCALE\<close> are \<open>int\<close> constant
  expressions of the configuration; \<open>MAX_HANDLES\<close> is the size of the per-process
  handle table. Their values are build parameters of the kernel.
\<close>

record config =
  TIMER_HZ :: nat
  TS_SCALE :: nat
  MAX_HANDLES :: nat

definition BILLION :: nat where "BILLION = 1000000000"


record time_state =
  time_ns :: u64
  boot_timestamp :: s64
  tick_adj_val :: s32
  tick_adj_ticks_rem :: s32


definition get_sys_time :: "time_state \<Rightarrow> u64" where
  "get_sys_time st = time_ns st"

definition get_timestamp :: "config \<Rightarrow> time_state \<Rightarrow> s64" where
  "get_timestamp cfg st =
     (let ts = get_sys_time st
      in boot_timestamp st + ts div word_of_nat (TS_SCALE cfg))"

text \<open>\<open>struct timespec\<close> of the 32-bit target: \<open>time_t\<close> and \<open>long\<close> are 32 bits wide.\<close>

record timespec =
  tv_sec :: s32
  tv_nsec :: s32

definition real_time_get_timespec :: "config \<Rightarrow> time_state \<Rightarrow> timespec" where
  "real_time_get_timespec cfg st =
     (let t = get_sys_time st;
          sec = (ucast (boot_timestamp st) :: s32) + ucast (t div word_of_nat (TS_SCALE cfg))
      in if TS_SCALE cfg \<le> BILLION
         then \<lparr>tv_sec = sec,
               tv_nsec = ucast ((t mod word_of_nat (TS_SCALE cfg))
                                  * word_of_nat (BILLION div TS_SCALE cfg))\<rparr>
         else \<lparr>tv_sec = sec,
               tv_nsec = ucast ((t mod word_of_nat (TS_SCALE cfg))
                                  div word_of_nat (TS_SCALE cfg div BILLION))\<rparr>)"



section \<open>The select() multiplexer (select.c)\<close>

text \<open>
  The three readiness kinds are the indices 0, 1 and 2 of the tables \<open>gcf\<close> and \<open>grf\<close>
  and of the arrays \<open>sets\<close> and \<open>u_sets\<close>.
\<close>

datatype rwe = RD | WR | EXC

text \<open>
  An \<open>fd_set\<close> is the set of the descriptors whose bit is set: \<open>FD_ISSET\<close> is
  membership and \<open>FD_CLR\<close> removes an element. A file handle and a condition variable are
  pointers, named here by numbers; the null pointer is \<open>None\<close>.
\<close>

type_synonym fd_set = "nat set"
type_synonym fs_handle = nat
type_synonym kcond = nat

text \<open>\<open>struct timeval\<close> of the 32-bit target: two \<open>long\<close> fields.\<close>

record timeval =
  tv_sec :: s32
  tv_usec :: s32

text \<open>
  What the VFS answers at one moment: the handle table of the current task
  (\<open>get_fs_handle\<close>), the condition variable of a handle for each kind (\<open>gcf\<close>), and
  whether a handle is ready for each kind (\<open>grf\<close>).
\<close>

record world =
  get_fs_handle :: "nat \<Rightarrow> fs_handle option"
  gcf :: "rwe \<Rightarrow> fs_handle \<Rightarrow> kcond option"
  grf :: "rwe \<Rightarrow> fs_handle \<Rightarrow> bool"

text \<open>
  A pointer into user memory: null, unmapped, mapped read-only, or mapped read-write.
  \<open>copy_from_user\<close> fails on an unmapped pointer, \<open>copy_to_user\<close> on one that is
  not writable.
\<close>

datatype 'a uptr = UNull | UBad | URO 'a | URW 'a

fun copy_from_user :: "'a uptr \<Rightarrow> 'a option" where
  "copy_from_user (URO x) = Some x"
| "copy_from_user (URW x) = Some x"
| "copy_from_user _ = None"

fun copy_to_user :: "'a uptr \<Rightarrow> bool" where
  "copy_to_user (URW x) = True"
| "copy_to_user _ = False"

text \<open>
  The scheduler is external. One return of \<open>kernel_sleep_on_waiter\<close> is described by
  whether the wake-up timer fired (\<open>curr->wobj.type\<close> is set), the answers of the VFS at
  that moment, and the ticks that \<open>task_cancel_wakeup_timer\<close> would report as remaining.
  The environment of a call gives the answers of the VFS when the call starts, whether
  \<open>allocate_mobj_waiter\<close> succeeds, the successive returns of \<open>kernel_sleep_on_waiter\<close>
  (a task that is never woken again has no further entry), and the answers of the VFS
  after \<open>kernel_sleep\<close>.
\<close>

record wakeup =
  timed_out :: bool
  w_now :: world
  rem_ticks :: u32

record select_env =
  w0 :: world
  alloc_ok :: bool
  wakeups :: "wakeup list"
  w_slept :: world

text \<open>What the call does to the scheduler and the waiter, in order.\<close>

datatype sel_event =
  AllocWaiter nat
  | SetKcond nat kcond
  | SetWakeupTimer u32
  | SleepOnWaiter
  | CancelWakeupTimer
  | FreeWaiter
  | KernelSleep u32

text \<open>
  A call returns a value, stops the kernel on a failed \<open>ASSERT\<close>, or never returns.
\<close>

datatype 'a outcome = Done 'a | Panicked | Blocked

record select_ctx =
  nfds :: nat
  sets :: "rwe \<Rightarrow> fd_set option"
  u_sets :: "rwe \<Rightarrow> fd_set uptr"
  tv :: "timeval option"
  user_tv :: "timeval uptr"
  cond_cnt :: nat
  timeout_ticks :: u32

text \<open>
  The kernel copies live in the task's \<open>args_copybuf\<close>: \<open>sets[i]\<close> is
  \<open>((fd_set *) buf) + i\<close>, and the \<open>timeval\<close> is at
  \<open>(void *) ((fd_set *) buf) + 3\<close>. The cast binds tighter than the sum, so that is
  the address \<open>buf + 3\<close> in bytes: the eight bytes of the \<open>timeval\<close> are the bytes
  3 to 10 of the read set \<open>sets[0]\<close>. On the 32-bit little-endian target, bit \<open>i\<close> of
  \<open>tv_sec\<close> is bit \<open>24 + i\<close> of that set and bit \<open>i\<close> of \<open>tv_usec\<close> is bit
  \<open>56 + i\<close>. A store into the \<open>timeval\<close> therefore rewrites the bits 24 to 87 of the
  read set, and the \<open>timeval\<close> is read back from them.
\<close>

definition tv_bits :: "timeval \<Rightarrow> nat set" where
  "tv_bits t =
     (\<lambda>i. 24 + i) ` {i \<in> {0..<32}. bit (tv_sec t) i}
       \<union> (\<lambda>i. 56 + i) ` {i \<in> {0..<32}. bit (tv_usec t) i}"

definition tv_over_set :: "timeval \<Rightarrow> fd_set \<Rightarrow> fd_set" where
  "tv_over_set t s = (s - {24..<88}) \<union> tv_bits t"

definition tv_of_set :: "fd_set \<Rightarrow> timeval" where
  "tv_of_set s =
     \<lparr>tv_sec = horner_sum of_bool 2 (map (\<lambda>i. 24 + i \<in> s) [0..<32]),
      tv_usec = horner_sum of_bool 2 (map (\<lambda>i. 56 + i \<in> s) [0..<32])\<rparr>"

text \<open>A store of a \<open>timeval\<close> through \<open>c->tv\<close>.\<close>

definition ctx_store_tv :: "timeval \<Rightarrow> select_ctx \<Rightarrow> select_ctx" where
  "ctx_store_tv t c =
     c\<lparr>tv := Some t, sets := (sets c)(RD := map_option (tv_over_set t) (sets c RD))\<rparr>"

fun select_count_cond_loop ::
  "world \<Rightarrow> rwe \<Rightarrow> fd_set \<Rightarrow> nat list \<Rightarrow> select_ctx \<Rightarrow> int \<times> select_ctx" where
  "select_count_cond_loop w k s [] c = (0, c)"
| "select_count_cond_loop w k s (i # is) c =
     (if i \<notin> s then select_count_cond_loop w k s is c
      else case get_fs_handle w i of
             None \<Rightarrow> (- EBADF, c)
           | Some h \<Rightarrow>
               select_count_cond_loop w k s is
                 (if gcf w k h \<noteq> None then c\<lparr>cond_cnt := cond_cnt c + 1\<rparr> else c))"

definition select_count_cond_per_set ::
  "world \<Rightarrow> select_ctx \<Rightarrow> fd_set option \<Rightarrow> rwe \<Rightarrow> int \<times> select_ctx" where
  "select_count_cond_per_set w c set_opt k =
     (case set_opt of
        None \<Rightarrow> (0, c)
      | Some s \<Rightarrow> select_count_cond_loop w k s [0..<nfds c] c)"

text \<open>
  \<open>select_set_kcond\<close>: the return code, the next free slot and the slots bound. The
  \<open>ASSERT\<close> is compiled in when \<open>dbg\<close> holds.
\<close>

fun select_set_kcond_loop ::
  "bool \<Rightarrow> world \<Rightarrow> rwe \<Rightarrow> fd_set \<Rightarrow> nat \<Rightarrow> nat list \<Rightarrow> nat \<Rightarrow> sel_event list
     \<Rightarrow> (int \<times> nat \<times> sel_event list) outcome" where
  "select_set_kcond_loop dbg w k s cnt [] idx ev = Done (0, idx, ev)"
| "select_set_kcond_loop dbg w k s cnt (i # is) idx ev =
     (if i \<notin> s then select_set_kcond_loop dbg w k s cnt is idx ev
      else case get_fs_handle w i of
             None \<Rightarrow> Done (- EBADF, idx, ev)
           | Some h \<Rightarrow>
               if dbg \<and> \<not> idx < cnt then Panicked
               else (case gcf w k h of
                       None \<Rightarrow> select_set_kcond_loop dbg w k s cnt is idx ev
                     | Some kc \<Rightarrow>
                         select_set_kcond_loop dbg w k s cnt is (idx + 1)
                           (ev @ [SetKcond idx kc])))"

definition select_set_kcond ::
  "bool \<Rightarrow> world \<Rightarrow> nat \<Rightarrow> nat \<Rightarrow> nat \<Rightarrow> sel_event list \<Rightarrow> fd_set option \<Rightarrow> rwe
     \<Rightarrow> (int \<times> nat \<times> sel_event list) outcome" where
  "select_set_kcond dbg w n cnt idx ev set_opt k =
     (case set_opt of
        None \<Rightarrow> Done (0, idx, ev)
      | Some s \<Rightarrow> select_set_kcond_loop dbg w k s cnt [0..<n] idx ev)"

fun select_set_ready_loop ::
  "world \<Rightarrow> rwe \<Rightarrow> nat list \<Rightarrow> fd_set \<Rightarrow> int \<Rightarrow> int \<times> fd_set" where
  "select_set_ready_loop w k [] s tot = (tot, s)"
| "select_set_ready_loop w k (i # is) s tot =
     (if i \<notin> s then select_set_ready_loop w k is s tot
      else case get_fs_handle w i of
             None \<Rightarrow> select_set_ready_loop w k is (s - {i}) tot
           | Some h \<Rightarrow>
               if \<not> grf w k h then select_set_ready_loop w k is (s - {i}) tot
               else select_set_ready_loop w k is s (tot + 1))"

definition select_set_ready ::
  "world \<Rightarrow> nat \<Rightarrow> fd_set option \<Rightarrow> rwe \<Rightarrow> int \<times> fd_set option" where
  "select_set_ready w n set_opt k =
     (case set_opt of
        None \<Rightarrow> (0, None)
      | Some s \<Rightarrow>
          (case select_set_ready_loop w k [0..<n] s 0 of (tot, s') \<Rightarrow> (tot, Some s')))"

fun count_ready_streams_loop :: "world \<Rightarrow> rwe \<Rightarrow> fd_set \<Rightarrow> nat list \<Rightarrow> nat \<Rightarrow> nat" where
  "count_ready_streams_loop w k s [] count = count"
| "count_ready_streams_loop w k s (j # js) count =
     (if j \<notin> s then count_ready_streams_loop w k s js count
      else case get_fs_handle w j of
             None \<Rightarrow> count_ready_streams_loop w k s js count
           | Some h \<Rightarrow>
               count_ready_streams_loop w k s js (if grf w k h then count + 1 else count))"

definition count_ready_streams_per_set ::
  "world \<Rightarrow> nat \<Rightarrow> fd_set option \<Rightarrow> rwe \<Rightarrow> nat" where
  "count_ready_streams_per_set w n set_opt k =
     (case set_opt of
        None \<Rightarrow> 0
      | Some s \<Rightarrow> count_ready_streams_loop w k s [0..<n] 0)"

definition count_ready_streams :: "world \<Rightarrow> nat \<Rightarrow> (rwe \<Rightarrow> fd_set option) \<Rightarrow> nat" where
  "count_ready_streams w n ss =
     count_ready_streams_per_set w n (ss RD) RD + count_ready_streams_per_set w n (ss WR) WR
       + count_ready_streams_per_set w n (ss EXC) EXC"

text \<open>
  The \<open>while (true)\<close> loop of \<open>select_wait_on_cond\<close>, one round for each return of
  \<open>kernel_sleep_on_waiter\<close>: the context, the answers of the VFS at the last wake-up and
  the events, or nothing when the task is never woken again.
\<close>

fun select_wait_loop ::
  "config \<Rightarrow> select_ctx \<Rightarrow> wakeup list \<Rightarrow> sel_event list
     \<Rightarrow> (select_ctx \<times> world \<times> sel_event list) option" where
  "select_wait_loop cfg c [] ev = None"
| "select_wait_loop cfg c (e # es) ev =
     (case tv c of
        Some t \<Rightarrow>
          if timed_out e
          then Some (ctx_store_tv \<lparr>tv_sec = 0, tv_usec = 0\<rparr> c, w_now e, ev @ [SleepOnWaiter])
          else if count_ready_streams (w_now e) (nfds c) (sets c) = 0
          then select_wait_loop cfg c es (ev @ [SleepOnWaiter])
          else
            let rem = rem_ticks e
            in Some (ctx_store_tv
                       \<lparr>tv_sec = rem div word_of_nat (TIMER_HZ cfg),
                        tv_usec = (rem mod word_of_nat (TIMER_HZ cfg))
                                    * word_of_nat (1000000 div TIMER_HZ cfg)\<rparr> c,
                     w_now e, ev @ [SleepOnWaiter, CancelWakeupTimer])
      | None \<Rightarrow>
          if count_ready_streams (w_now e) (nfds c) (sets c) = 0
          then select_wait_loop cfg c es (ev @ [SleepOnWaiter])
          else Some (c, w_now e, ev @ [SleepOnWaiter]))"

fun select_set_kcond_all ::
  "bool \<Rightarrow> world \<Rightarrow> select_ctx \<Rightarrow> rwe list \<Rightarrow> nat \<Rightarrow> sel_event list
     \<Rightarrow> (int \<times> nat \<times> sel_event list) outcome" where
  "select_set_kcond_all dbg w c [] idx ev = Done (0, idx, ev)"
| "select_set_kcond_all dbg w c (k # ks) idx ev =
     (case select_set_kcond dbg w (nfds c) (cond_cnt c) idx ev (sets c k) k of
        Done (rc, idx', ev') \<Rightarrow>
          if rc \<noteq> 0 then Done (rc, idx', ev') else select_set_kcond_all dbg w c ks idx' ev'
      | Panicked \<Rightarrow> Panicked
      | Blocked \<Rightarrow> Blocked)"

text \<open>
  \<open>select_wait_on_cond\<close>: the return code, the context, the answers of the VFS when it
  returns, and the events.
\<close>

definition select_wait_on_cond ::
  "config \<Rightarrow> bool \<Rightarrow> select_env \<Rightarrow> select_ctx
     \<Rightarrow> (int \<times> select_ctx \<times> world \<times> sel_event list) outcome" where
  "select_wait_on_cond cfg dbg env c =
     (if \<not> alloc_ok env then Done (- ENOMEM, c, w0 env, [])
      else
        case select_set_kcond_all dbg (w0 env) c [RD, WR, EXC] 0 [AllocWaiter (cond_cnt c)] of
          Panicked \<Rightarrow> Panicked
        | Blocked \<Rightarrow> Blocked
        | Done (rc, idx, ev) \<Rightarrow>
            if rc \<noteq> 0 then Done (rc, c, w0 env, ev @ [FreeWaiter])
            else if tv c \<noteq> None \<and> dbg \<and> \<not> 0 < timeout_ticks c then Panicked
            else
              (case select_wait_loop cfg c (wakeups env)
                      (if tv c \<noteq> None then ev @ [SetWakeupTimer (timeout_ticks c)] else ev) of
                 None \<Rightarrow> Blocked
               | Some (c', w, ev') \<Rightarrow> Done (0, c', w, ev' @ [FreeWaiter])))"

fun select_read_user_sets_loop ::
  "rwe list \<Rightarrow> (rwe \<Rightarrow> fd_set option) \<Rightarrow> (rwe \<Rightarrow> fd_set uptr) \<Rightarrow> int \<times> (rwe \<Rightarrow> fd_set option)" where
  "select_read_user_sets_loop [] ss us = (0, ss)"
| "select_read_user_sets_loop (k # ks) ss us =
     (if us k = UNull then select_read_user_sets_loop ks ss us
      else case copy_from_user (us k) of
             None \<Rightarrow> (- EFAULT, ss)
           | Some s \<Rightarrow> select_read_user_sets_loop ks (ss(k := Some s)) us)"

definition select_read_user_sets ::
  "(rwe \<Rightarrow> fd_set option) \<Rightarrow> (rwe \<Rightarrow> fd_set uptr) \<Rightarrow> int \<times> (rwe \<Rightarrow> fd_set option)" where
  "select_read_user_sets ss us = select_read_user_sets_loop [RD, WR, EXC] ss us"

text \<open>
  The conversion of a \<open>timeval\<close> into ticks in \<open>select_read_user_tv\<close>: \<open>(u64)\<close> of a
  \<open>long\<close> extends the sign, the sum is a \<open>u64\<close>, \<open>MIN\<close> compares it with
  \<open>UINT32_MAX\<close> and the cast keeps the low 32 bits.
\<close>

definition select_tv_tmp :: "config \<Rightarrow> timeval \<Rightarrow> u64" where
  "select_tv_tmp cfg t =
     (let tmp0 = (0 :: u64);
          tmp1 = tmp0 + scast (tv_sec t) * word_of_nat (TIMER_HZ cfg);
          tmp2 = tmp1 + scast (tv_usec t) div (1000000 div word_of_nat (TIMER_HZ cfg))
      in tmp2)"

definition select_tv_to_ticks :: "config \<Rightarrow> timeval \<Rightarrow> u32" where
  "select_tv_to_ticks cfg t = ucast (min (select_tv_tmp cfg t) 0xFFFFFFFF)"

text \<open>\<open>select_read_user_tv\<close>: the return code, \<open>*tv_ref\<close> and \<open>*timeout\<close>.\<close>

definition select_read_user_tv ::
  "config \<Rightarrow> timeval uptr \<Rightarrow> u32 \<Rightarrow> int \<times> timeval option \<times> u32" where
  "select_read_user_tv cfg utv timeout =
     (if utv \<noteq> UNull
      then case copy_from_user utv of
             None \<Rightarrow> (- EFAULT, None, timeout)
           | Some t \<Rightarrow> (0, Some t, select_tv_to_ticks cfg t)
      else (0, None, timeout))"

fun select_compute_cond_cnt_loop ::
  "world \<Rightarrow> rwe list \<Rightarrow> select_ctx \<Rightarrow> int \<times> select_ctx" where
  "select_compute_cond_cnt_loop w [] c = (0, c)"
| "select_compute_cond_cnt_loop w (k # ks) c =
     (case select_count_cond_per_set w c (sets c k) k of
        (rc, c') \<Rightarrow> if rc \<noteq> 0 then (rc, c') else select_compute_cond_cnt_loop w ks c')"

definition select_compute_cond_cnt :: "world \<Rightarrow> select_ctx \<Rightarrow> int \<times> select_ctx" where
  "select_compute_cond_cnt w c =
     (if tv c = None \<or> 0 < timeout_ticks c
      then select_compute_cond_cnt_loop w [RD, WR, EXC] c
      else (0, c))"

text \<open>
  What a call hands back: the returned value, the sets and the \<open>timeval\<close> copied to
  user memory (in order), and the events. \<open>reported_in\<close> records the answers of the VFS
  that the report phase saw, when it ran.
\<close>

record select_result =
  rc :: int
  set_writes :: "(rwe \<times> fd_set) list"
  tv_write :: "timeval option"
  events :: "sel_event list"
  reported_in :: "world option"

fun select_write_user_sets_loop ::
  "world \<Rightarrow> select_ctx \<Rightarrow> rwe list \<Rightarrow> int \<Rightarrow> (rwe \<times> fd_set) list
     \<Rightarrow> int \<times> (rwe \<times> fd_set) list \<times> bool" where
  "select_write_user_sets_loop w c [] tot wr = (tot, wr, True)"
| "select_write_user_sets_loop w c (k # ks) tot wr =
     (case select_set_ready w (nfds c) (sets c k) k of
        (n, s') \<Rightarrow>
          if u_sets c k = UNull then select_write_user_sets_loop w c ks (tot + n) wr
          else (case s' of
                  None \<Rightarrow> (- EFAULT, wr, False)
                | Some s \<Rightarrow>
                    if copy_to_user (u_sets c k)
                    then select_write_user_sets_loop w c ks (tot + n) (wr @ [(k, s)])
                    else (- EFAULT, wr, False)))"

text \<open>
  The \<open>timeval\<close> that \<open>c->tv\<close> points to once \<open>select_set_ready\<close> has run on the
  read set: with a read set in the buffer, its bytes are bytes of that set.
\<close>

definition tv_at_report :: "world \<Rightarrow> select_ctx \<Rightarrow> timeval \<Rightarrow> timeval" where
  "tv_at_report w c t =
     (case snd (select_set_ready w (nfds c) (sets c RD) RD) of
        None \<Rightarrow> t
      | Some s' \<Rightarrow> tv_of_set s')"

text \<open>
  \<open>select_write_user_sets\<close>: the returned value, the sets written and the
  \<open>timeval\<close> written.
\<close>

definition select_write_user_sets ::
  "world \<Rightarrow> select_ctx \<Rightarrow> int \<times> (rwe \<times> fd_set) list \<times> timeval option" where
  "select_write_user_sets w c =
     (case select_write_user_sets_loop w c [RD, WR, EXC] 0 [] of
        (tot, wr, ok) \<Rightarrow>
          if \<not> ok then (tot, wr, None)
          else (case tv c of
                  None \<Rightarrow> (tot, wr, None)
                | Some t \<Rightarrow>
                    if copy_to_user (user_tv c) then (tot, wr, Some (tv_at_report w c t))
                    else (- EFAULT, wr, None)))"

definition select_failed :: "int \<Rightarrow> sel_event list \<Rightarrow> select_result" where
  "select_failed r ev =
     \<lparr>rc = r, set_writes = [], tv_write = None, events = ev, reported_in = None\<rparr>"

definition select_report :: "world \<Rightarrow> select_ctx \<Rightarrow> sel_event list \<Rightarrow> select_result" where
  "select_report w c ev =
     (case select_write_user_sets w c of
        (r, wr, tw) \<Rightarrow>
          \<lparr>rc = r, set_writes = wr, tv_write = tw, events = ev, reported_in = Some w\<rparr>)"

text \<open>The initialiser \<open>{ user_rfds, user_wfds, user_efds }\<close> of \<open>u_sets\<close>.\<close>

definition user_sets :: "fd_set uptr \<Rightarrow> fd_set uptr \<Rightarrow> fd_set uptr \<Rightarrow> rwe \<Rightarrow> fd_set uptr" where
  "user_sets user_rfds user_wfds user_efds k =
     (case k of RD \<Rightarrow> user_rfds | WR \<Rightarrow> user_wfds | EXC \<Rightarrow> user_efds)"

text \<open>
  \<open>sys_select\<close>, from the call of \<open>select_compute_cond_cnt\<close> to the end: the part that
  runs once the arguments are checked and copied in.
\<close>

definition sys_select_tail ::
  "config \<Rightarrow> bool \<Rightarrow> select_env \<Rightarrow> select_ctx \<Rightarrow> select_result outcome" where
  "sys_select_tail cfg dbg env ctx =
     (case select_compute_cond_cnt (w0 env) ctx of
        (rc3, c) \<Rightarrow>
          if rc3 \<noteq> 0 then Done (select_failed rc3 [])
          else if 0 < cond_cnt c
          then
            (case select_wait_on_cond cfg dbg env c of
               Panicked \<Rightarrow> Panicked
             | Blocked \<Rightarrow> Blocked
             | Done (rc4, c', w, ev) \<Rightarrow>
                 if rc4 \<noteq> 0 then Done (select_failed rc4 ev)
                 else Done (select_report w c' ev))
          else if 0 < timeout_ticks c
          then Done (select_report (w_slept env) c [KernelSleep (timeout_ticks c)])
          else Done (select_report (w0 env) c []))"

text \<open>
  \<open>sys_select\<close>. \<open>user_nfds\<close> is a C \<open>int\<close>, and \<open>nfds\<close> is \<open>(u32)user_nfds\<close>;
  \<open>dbg\<close> says whether \<open>ASSERT\<close> is compiled in. The copy of the \<open>timeval\<close> from
  user memory comes after the copies of the sets, and is a store through \<open>c->tv\<close>.
\<close>

definition sys_select ::
  "config \<Rightarrow> bool \<Rightarrow> select_env \<Rightarrow> s32 \<Rightarrow> fd_set uptr \<Rightarrow> fd_set uptr \<Rightarrow> fd_set uptr
     \<Rightarrow> timeval uptr \<Rightarrow> select_result outcome" where
  "sys_select cfg dbg env user_nfds user_rfds user_wfds user_efds utv =
     (let ctx = \<lparr>nfds = unat user_nfds,
                 sets = (\<lambda>k. None),
                 u_sets = user_sets user_rfds user_wfds user_efds,
                 tv = None,
                 user_tv = utv,
                 cond_cnt = 0,
                 timeout_ticks = 0\<rparr>
      in if sint user_nfds < 0 \<or> sint user_nfds > int (MAX_HANDLES cfg)
         then Done (select_failed (- EINVAL) [])
         else
           case select_read_user_sets (sets ctx) (u_sets ctx) of
             (rc1, ss) \<Rightarrow>
               if rc1 \<noteq> 0 then Done (select_failed rc1 [])
               else
                 case select_read_user_tv cfg utv (timeout_ticks ctx) of
                   (rc2, tvo, ticks) \<Rightarrow>
                     if rc2 \<noteq> 0 then Done (select_failed rc2 [])
                     else
                       let ctx1 = ctx\<lparr>sets := ss, timeout_ticks := ticks\<rparr>
                       in sys_select_tail cfg dbg env
                            (case tvo of None \<Rightarrow> ctx1 | Some t \<Rightarrow> ctx_store_tv t ctx1))"

section \<open>PCI enumeration (pci.c)\<close>

definition PCI_CLASS_BRIDGE :: u8 where "PCI_CLASS_BRIDGE = 0x06"
definition PCI_SUBCLASS_PCI_BRIDGE :: u8 where "PCI_SUBCLASS_PCI_BRIDGE = 0x04"
definition PCI_DEV_BASE_INFO :: u32 where "PCI_DEV_BASE_INFO = 0x00"
definition PCI_CLASS_INFO_OFF :: u32 where "PCI_CLASS_INFO_OFF = 0x08"
definition PCI_HDR_TYPE_OFF :: u32 where "PCI_HDR_TYPE_OFF = 0x0e"
definition PCI_HDR1_SECOND_BUS :: u32 where "PCI_HDR1_SECOND_BUS = 0x19"
definition PCI_HDR1_SUBORD_BUS :: u32 where "PCI_HDR1_SUBORD_BUS = 0x1a"

definition BUS_NOT_VISITED :: u8 where "BUS_NOT_VISITED = 0"
definition BUS_TO_VISIT :: u8 where "BUS_TO_VISIT = 1"
definition BUS_VISITED :: u8 where "BUS_VISITED = 2"

record pci_segment =
  base_paddr :: u64
  segment :: u16
  start_bus :: u8
  end_bus :: u8

text \<open>
  The state of the enumeration is the array \<open>pci_buses[256]\<close>, indexed by a bus number.
  Three logs are kept beside it, to state what a run did: the buses handed to
  \<open>pci_discover_bus\<close>, the buses handed to \<open>pci_mark_bus_to_visit\<close>, and the stores
  into the array as (bus, old value, new value), each in order.
\<close>

record pci_state =
  pci_buses :: "u8 \<Rightarrow> u8"
  visits :: "u8 list"
  marks :: "u8 list"
  writes :: "(u8 \<times> u8 \<times> u8) list"

definition pci_mark_bus_to_visit :: "u8 \<Rightarrow> pci_state \<Rightarrow> pci_state" where
  "pci_mark_bus_to_visit b st =
     (if pci_buses st b = BUS_NOT_VISITED
      then st\<lparr>pci_buses := (pci_buses st)(b := BUS_TO_VISIT),
              marks := marks st @ [b],
              writes := writes st @ [(b, pci_buses st b, BUS_TO_VISIT)]\<rparr>
      else st\<lparr>marks := marks st @ [b]\<rparr>)"

definition pci_mark_bus_as_visited :: "u8 \<Rightarrow> pci_state \<Rightarrow> pci_state" where
  "pci_mark_bus_as_visited b st =
     st\<lparr>pci_buses := (pci_buses st)(b := BUS_VISITED),
        writes := writes st @ [(b, pci_buses st b, BUS_VISITED)]\<rparr>"

text \<open>
  Modelled from the spec: the layout of \<open>struct pci_device_basic_info\<close>, whose header is
  not among the sources. The three raw words are the ones read at offsets \<open>0x00\<close>
  (vendor in the low half, device in the high half), \<open>0x08\<close> (revision, progif,
  subclass, class, from the low byte up) and \<open>0x0e\<close> (header type, bit 7 =
  multi-function).
\<close>

record pci_device_basic_info =
  dev_vendr :: u32
  class_info :: u32
  header_type :: u8

definition vendor_id :: "pci_device_basic_info \<Rightarrow> u16" where
  "vendor_id nfo = ucast (dev_vendr nfo)"

definition class_id :: "pci_device_basic_info \<Rightarrow> u8" where
  "class_id nfo = ucast (drop_bit 24 (class_info nfo))"

definition subclass_id :: "pci_device_basic_info \<Rightarrow> u8" where
  "subclass_id nfo = ucast (drop_bit 16 (class_info nfo))"

definition multi_func :: "pci_device_basic_info \<Rightarrow> bool" where
  "multi_func nfo = bit (header_type nfo) 7"

text \<open>
  \<open>pci_config_read\<close> calls through \<open>__pci_config_read_func\<close>, which \<open>init_pci\<close> sets
  before any read. This section is the enumeration as it runs with
  \<open>pci_ioport_config_read\<close> installed, the choice of \<open>init_pci\<close> when the MCFG table
  lists no segment; the enumeration with \<open>pci_mmio_config_read\<close> installed follows in the
  next section.
\<close>

definition pci_config_read ::
  "pci_hw \<Rightarrow> pci_device_loc \<Rightarrow> u32 \<Rightarrow> u32 \<Rightarrow> int \<times> u32 option" where
  "pci_config_read hw loc off width = pci_ioport_config_read hw loc off width"

definition pci_device_get_info ::
  "pci_hw \<Rightarrow> pci_device_loc \<Rightarrow> int \<times> pci_device_basic_info option" where
  "pci_device_get_info hw loc =
     (case pci_config_read hw loc PCI_DEV_BASE_INFO 32 of
        (r1, None) \<Rightarrow> (r1, None)
      | (r1, Some dv) \<Rightarrow>
          if r1 \<noteq> 0 then (r1, None)
          else if (ucast dv :: u16) = 0xffff \<or> (ucast dv :: u16) = 0 then (- ENOENT, None)
          else
            (case pci_config_read hw loc PCI_CLASS_INFO_OFF 32 of
               (r2, None) \<Rightarrow> (r2, None)
             | (r2, Some ci) \<Rightarrow>
                 if r2 \<noteq> 0 then (r2, None)
                 else
                   (case pci_config_read hw loc PCI_HDR_TYPE_OFF 8 of
                      (r3, None) \<Rightarrow> (r3, None)
                    | (r3, Some tmp) \<Rightarrow>
                        if r3 \<noteq> 0 then (r3, None)
                        else (0, Some \<lparr>dev_vendr = dv, class_info = ci,
                                        header_type = ucast (tmp AND 0xff)\<rparr>))))"

text \<open>
  The loop \<open>for (u32 i = secondary_bus; i <= subordinate_bus; i++)\<close>. Both bounds are
  bytes read from the configuration space, so \<open>i\<close> never wraps; it is counted in
  \<open>nat\<close>, and \<open>(u8)i\<close> is \<open>of_nat i\<close>.
\<close>

definition pci_mark_bus_range :: "u32 \<Rightarrow> u32 \<Rightarrow> pci_state \<Rightarrow> pci_state" where
  "pci_mark_bus_range secondary_bus subordinate_bus st =
     fold (\<lambda>i. pci_mark_bus_to_visit (of_nat i))
       [unat secondary_bus ..< Suc (unat subordinate_bus)] st"

text \<open>
  \<open>pci_discover_device_func\<close>: \<open>dev_nfo\<close> is \<open>None\<close> for the null pointer. The
  function only logs (\<open>pci_dump_device_info\<close>) and marks buses. Its
  \<open>ASSERT(dev_nfo != NULL)\<close> guards function 0, for which the only caller,
  \<open>pci_discover_device\<close>, passes the record it has just read; the case of function 0
  with a null pointer, which no call reaches, is given the result \<open>False\<close> here.
  \<open>ASSERT(loc.func == 0)\<close> in \<open>pci_discover_device\<close> holds as well:
  \<open>pci_discover_bus\<close> builds every location with function 0.
\<close>

definition pci_discover_device_func ::
  "pci_hw \<Rightarrow> pci_device_loc \<Rightarrow> pci_device_basic_info option \<Rightarrow> pci_state
     \<Rightarrow> bool \<times> pci_state" where
  "pci_discover_device_func hw loc dev_nfo st =
     (case (if func loc \<noteq> 0 then snd (pci_device_get_info hw loc) else dev_nfo) of
        None \<Rightarrow> (False, st)
      | Some nfo \<Rightarrow>
          if class_id nfo = PCI_CLASS_BRIDGE \<and> subclass_id nfo = PCI_SUBCLASS_PCI_BRIDGE
          then
            (case pci_config_read hw loc PCI_HDR1_SECOND_BUS 8 of
               (r1, None) \<Rightarrow> (False, st)
             | (r1, Some secondary_bus) \<Rightarrow>
                 if r1 \<noteq> 0 then (False, st)
                 else
                   (case pci_config_read hw loc PCI_HDR1_SUBORD_BUS 8 of
                      (r2, None) \<Rightarrow> (False, st)
                    | (r2, Some subordinate_bus) \<Rightarrow>
                        if r2 \<noteq> 0 then (False, st)
                        else (True, pci_mark_bus_range secondary_bus subordinate_bus st)))
          else (True, st))"

definition pci_discover_device :: "pci_hw \<Rightarrow> pci_device_loc \<Rightarrow> pci_state \<Rightarrow> bool \<times> pci_state" where
  "pci_discover_device hw loc st =
     (case snd (pci_device_get_info hw loc) of
        None \<Rightarrow> (False, st)
      | Some nfo \<Rightarrow>
          (case pci_discover_device_func hw loc (Some nfo) st of
             (ok, st1) \<Rightarrow>
               if \<not> ok then (False, st1)
               else if multi_func nfo
               then (True,
                     fold (\<lambda>f s. snd (pci_discover_device_func hw (loc\<lparr>func := of_nat f\<rparr>) None s))
                       [1..<8] st1)
               else (True, st1)))"

definition pci_discover_bus :: "pci_hw \<Rightarrow> pci_segment option \<Rightarrow> u8 \<Rightarrow> pci_state \<Rightarrow> pci_state" where
  "pci_discover_bus hw sg b st =
     (let seg_num = (case sg of None \<Rightarrow> 0 | Some s \<Rightarrow> segment s);
          loc = pci_make_loc seg_num b 0 0;
          st1 = pci_mark_bus_as_visited b (st\<lparr>visits := visits st @ [b]\<rparr>)
      in fold (\<lambda>d s. snd (pci_discover_device hw (loc\<lparr>dev := of_nat d\<rparr>) s)) [0..<32] st1)"

text \<open>The loop over the host controllers of a multi-function root, with its \<open>break\<close>.\<close>

fun pci_discover_controllers ::
  "pci_hw \<Rightarrow> pci_segment option \<Rightarrow> nat list \<Rightarrow> pci_state \<Rightarrow> pci_state" where
  "pci_discover_controllers hw sg [] st = st"
| "pci_discover_controllers hw sg (f # fs) st =
     (if fst (pci_device_get_info hw (pci_make_loc 0 0 0 (of_nat f))) \<noteq> 0 then st
      else pci_discover_controllers hw sg fs (pci_discover_bus hw sg (of_nat f) st))"

text \<open>One pass of the \<open>for (u32 bus = 1; bus < 256; bus++)\<close> loop: the count and the state.\<close>

fun pci_sweep_loop ::
  "pci_hw \<Rightarrow> pci_segment option \<Rightarrow> nat list \<Rightarrow> int \<Rightarrow> pci_state \<Rightarrow> int \<times> pci_state" where
  "pci_sweep_loop hw sg [] visit_count st = (visit_count, st)"
| "pci_sweep_loop hw sg (b # bs) visit_count st =
     (if pci_buses st (of_nat b) = BUS_TO_VISIT
      then pci_sweep_loop hw sg bs (visit_count + 1) (pci_discover_bus hw sg (of_nat b) st)
      else pci_sweep_loop hw sg bs visit_count st)"

definition pci_sweep :: "pci_hw \<Rightarrow> pci_segment option \<Rightarrow> pci_state \<Rightarrow> int \<times> pci_state" where
  "pci_sweep hw sg st = pci_sweep_loop hw sg [1..<256] 0 st"

text \<open>The \<open>do ... while (visit_count > 0)\<close> loop: no value when it never ends.\<close>

partial_function (option) pci_visit_marked ::
  "pci_hw \<Rightarrow> pci_segment option \<Rightarrow> pci_state \<Rightarrow> pci_state option" where
  "pci_visit_marked hw sg st =
     (case pci_sweep hw sg st of
        (visit_count, st1) \<Rightarrow>
          if 0 < visit_count then pci_visit_marked hw sg st1 else Some st1)"

declare pci_visit_marked.simps [code]

definition pci_discover_segment ::
  "pci_hw \<Rightarrow> pci_segment option \<Rightarrow> pci_state \<Rightarrow> pci_state option" where
  "pci_discover_segment hw sg st =
     (case pci_device_get_info hw (pci_make_loc 0 0 0 0) of
        (r0, None) \<Rightarrow> Some st
      | (r0, Some nfo) \<Rightarrow>
          if r0 \<noteq> 0 then Some st
          else if \<not> multi_func nfo then pci_visit_marked hw sg (pci_discover_bus hw sg 0 st)
          else pci_visit_marked hw sg (pci_discover_controllers hw sg [0..<8] st))"

text \<open>
  The array is a zero-initialised static, so every bus is \<open>BUS_NOT_VISITED\<close> when
  \<open>init_pci\<close> starts.
\<close>

definition pci_boot_state :: pci_state where
  "pci_boot_state = \<lparr>pci_buses = (\<lambda>b. BUS_NOT_VISITED), visits = [], marks = [], writes = []\<rparr>"

section \<open>PCI enumeration with the memory-mapped backend, and init_pci (pci.c)\<close>

text \<open>
  \<open>pci_mmio_config_read\<close> and \<open>pci_mmio_config_write\<close> return 0 and do nothing else:
  the read stores nothing through \<open>val\<close>.
\<close>

definition pci_mmio_config_read :: "pci_device_loc \<Rightarrow> u32 \<Rightarrow> u32 \<Rightarrow> int \<times> u32 option" where
  "pci_mmio_config_read loc off width = (0, None)"

definition pci_mmio_config_write :: "pci_device_loc \<Rightarrow> u32 \<Rightarrow> u32 \<Rightarrow> u32 \<Rightarrow> int \<times> io_event list" where
  "pci_mmio_config_write loc off width v = (0, [])"

text \<open>What a variable holds after a read that had it as destination.\<close>

definition after_read :: "u32 \<Rightarrow> int \<times> u32 option \<Rightarrow> u32" where
  "after_read old r = (case snd r of None \<Rightarrow> old | Some v \<Rightarrow> v)"

text \<open>
  With that backend the enumeration works on what its local variables hold before
  anything is stored in them: \<open>nfo\<close> in \<open>pci_discover_segment\<close> and in
  \<open>pci_discover_device\<close>, \<open>__nfo\<close>, \<open>secondary_bus\<close> and \<open>subordinate_bus\<close> in
  \<open>pci_discover_device_func\<close>, and \<open>tmp\<close> in \<open>pci_device_get_info\<close> are declared
  without an initialiser. The program does not determine these contents, so they are
  given from outside, for one call of \<open>pci_discover_segment\<close>: those of its own \<open>nfo\<close>,
  those of \<open>tmp\<close> in its calls of \<open>pci_device_get_info\<close> (number 0 for the root, number
  \<open>1 + func\<close> in the loop over the controllers), and those of the locals of the calls
  made for a location. Within one call of \<open>pci_discover_segment\<close> a bus is handed
  to \<open>pci_discover_bus\<close> at most once (the first loop takes distinct buses and sets
  them \<open>BUS_VISITED\<close>, the sweep takes only buses that are \<open>BUS_TO_VISIT\<close>), so no
  location is probed twice and giving the contents by location loses no run.
\<close>

record pci_indet =
  ind_seg_nfo :: pci_device_basic_info
  ind_seg_tmp :: "nat \<Rightarrow> u32"
  ind_dev_nfo :: "pci_device_loc \<Rightarrow> pci_device_basic_info"
  ind_func_nfo :: "pci_device_loc \<Rightarrow> pci_device_basic_info"
  ind_tmp :: "pci_device_loc \<Rightarrow> u32"
  ind_secondary :: "pci_device_loc \<Rightarrow> u32"
  ind_subordinate :: "pci_device_loc \<Rightarrow> u32"

text \<open>
  \<open>pci_device_get_info\<close> with the memory-mapped backend: the return code and \<open>*nfo\<close>
  afterwards, from \<open>*nfo\<close> and \<open>tmp\<close> as they are on entry.
\<close>

definition pci_device_get_info_mmio ::
  "pci_device_loc \<Rightarrow> pci_device_basic_info \<Rightarrow> u32 \<Rightarrow> int \<times> pci_device_basic_info" where
  "pci_device_get_info_mmio loc nfo tmp =
     (let r1 = pci_mmio_config_read loc PCI_DEV_BASE_INFO 32;
          nfo1 = nfo\<lparr>dev_vendr := after_read (dev_vendr nfo) r1\<rparr>
      in if fst r1 \<noteq> 0 then (fst r1, nfo1)
         else if vendor_id nfo1 = 0xffff \<or> vendor_id nfo1 = 0 then (- ENOENT, nfo1)
         else
           let r2 = pci_mmio_config_read loc PCI_CLASS_INFO_OFF 32;
               nfo2 = nfo1\<lparr>class_info := after_read (class_info nfo1) r2\<rparr>
           in if fst r2 \<noteq> 0 then (fst r2, nfo2)
              else
                let r3 = pci_mmio_config_read loc PCI_HDR_TYPE_OFF 8;
                    tmp3 = after_read tmp r3
                in if fst r3 \<noteq> 0 then (fst r3, nfo2)
                   else (0, nfo2\<lparr>header_type := ucast (tmp3 AND 0xff)\<rparr>))"

text \<open>
  The loop \<open>for (u32 i = secondary_bus; i <= subordinate_bus; i++)\<close> on bounds that
  are any \<open>u32\<close>: it never ends when \<open>subordinate_bus\<close> is \<open>UINT32_MAX\<close>, and
  otherwise \<open>i\<close> does not wrap.
\<close>

definition pci_mark_bus_range_any :: "u32 \<Rightarrow> u32 \<Rightarrow> pci_state \<Rightarrow> pci_state option" where
  "pci_mark_bus_range_any secondary_bus subordinate_bus st =
     (if subordinate_bus = - 1 then None
      else Some (pci_mark_bus_range secondary_bus subordinate_bus st))"

text \<open>A loop whose body may not return.\<close>

fun fold_opt :: "('a \<Rightarrow> 's \<Rightarrow> 's option) \<Rightarrow> 'a list \<Rightarrow> 's \<Rightarrow> 's option" where
  "fold_opt f [] s = Some s"
| "fold_opt f (x # xs) s = (case f x s of None \<Rightarrow> None | Some s' \<Rightarrow> fold_opt f xs s')"

text \<open>
  The functions of the enumeration with the memory-mapped backend; a result \<open>None\<close>
  is a call that does not return.
\<close>

definition pci_discover_device_func_mmio ::
  "pci_indet \<Rightarrow> pci_device_loc \<Rightarrow> pci_device_basic_info option \<Rightarrow> pci_state
     \<Rightarrow> (bool \<times> pci_state) option" where
  "pci_discover_device_func_mmio g loc dev_nfo st =
     (case (if func loc \<noteq> 0
            then (case pci_device_get_info_mmio loc (ind_func_nfo g loc) (ind_tmp g loc) of
                    (r, nfo) \<Rightarrow> if r \<noteq> 0 then None else Some nfo)
            else dev_nfo) of
        None \<Rightarrow> Some (False, st)
      | Some nfo \<Rightarrow>
          if class_id nfo = PCI_CLASS_BRIDGE \<and> subclass_id nfo = PCI_SUBCLASS_PCI_BRIDGE
          then
            let r1 = pci_mmio_config_read loc PCI_HDR1_SECOND_BUS 8;
                secondary_bus = after_read (ind_secondary g loc) r1
            in if fst r1 \<noteq> 0 then Some (False, st)
               else
                 let r2 = pci_mmio_config_read loc PCI_HDR1_SUBORD_BUS 8;
                     subordinate_bus = after_read (ind_subordinate g loc) r2
                 in if fst r2 \<noteq> 0 then Some (False, st)
                    else map_option (Pair True)
                           (pci_mark_bus_range_any secondary_bus subordinate_bus st)
          else Some (True, st))"

definition pci_discover_device_mmio ::
  "pci_indet \<Rightarrow> pci_device_loc \<Rightarrow> pci_state \<Rightarrow> (bool \<times> pci_state) option" where
  "pci_discover_device_mmio g loc st =
     (case pci_device_get_info_mmio loc (ind_dev_nfo g loc) (ind_tmp g loc) of
        (r, nfo) \<Rightarrow>
          if r \<noteq> 0 then Some (False, st)
          else
            (case pci_discover_device_func_mmio g loc (Some nfo) st of
               None \<Rightarrow> None
             | Some (ok, st1) \<Rightarrow>
                 if \<not> ok then Some (False, st1)
                 else if multi_func nfo
                 then map_option (Pair True)
                        (fold_opt
                           (\<lambda>f s. map_option snd
                                    (pci_discover_device_func_mmio g (loc\<lparr>func := of_nat f\<rparr>)
                                       None s))
                           [1..<8] st1)
                 else Some (True, st1)))"

definition pci_discover_bus_mmio ::
  "pci_indet \<Rightarrow> pci_segment option \<Rightarrow> u8 \<Rightarrow> pci_state \<Rightarrow> pci_state option" where
  "pci_discover_bus_mmio g sg b st =
     (let seg_num = (case sg of None \<Rightarrow> 0 | Some s \<Rightarrow> segment s);
          loc = pci_make_loc seg_num b 0 0;
          st1 = pci_mark_bus_as_visited b (st\<lparr>visits := visits st @ [b]\<rparr>)
      in fold_opt (\<lambda>d s. map_option snd (pci_discover_device_mmio g (loc\<lparr>dev := of_nat d\<rparr>) s))
           [0..<32] st1)"

text \<open>
  The loop over the host controllers: \<open>nfo\<close> is the one variable of
  \<open>pci_discover_segment\<close>, carried from one round to the next.
\<close>

fun pci_discover_controllers_mmio ::
  "pci_indet \<Rightarrow> pci_segment option \<Rightarrow> nat list \<Rightarrow> pci_device_basic_info \<Rightarrow> pci_state
     \<Rightarrow> pci_state option" where
  "pci_discover_controllers_mmio g sg [] nfo st = Some st"
| "pci_discover_controllers_mmio g sg (f # fs) nfo st =
     (case pci_device_get_info_mmio (pci_make_loc 0 0 0 (of_nat f)) nfo (ind_seg_tmp g (Suc f)) of
        (r, nfo1) \<Rightarrow>
          if r \<noteq> 0 then Some st
          else (case pci_discover_bus_mmio g sg (of_nat f) st of
                  None \<Rightarrow> None
                | Some st1 \<Rightarrow> pci_discover_controllers_mmio g sg fs nfo1 st1))"

fun pci_sweep_loop_mmio ::
  "pci_indet \<Rightarrow> pci_segment option \<Rightarrow> nat list \<Rightarrow> int \<Rightarrow> pci_state
     \<Rightarrow> (int \<times> pci_state) option" where
  "pci_sweep_loop_mmio g sg [] visit_count st = Some (visit_count, st)"
| "pci_sweep_loop_mmio g sg (b # bs) visit_count st =
     (if pci_buses st (of_nat b) = BUS_TO_VISIT
      then (case pci_discover_bus_mmio g sg (of_nat b) st of
              None \<Rightarrow> None
            | Some st1 \<Rightarrow> pci_sweep_loop_mmio g sg bs (visit_count + 1) st1)
      else pci_sweep_loop_mmio g sg bs visit_count st)"

definition pci_sweep_mmio ::
  "pci_indet \<Rightarrow> pci_segment option \<Rightarrow> pci_state \<Rightarrow> (int \<times> pci_state) option" where
  "pci_sweep_mmio g sg st = pci_sweep_loop_mmio g sg [1..<256] 0 st"

partial_function (option) pci_visit_marked_mmio ::
  "pci_indet \<Rightarrow> pci_segment option \<Rightarrow> pci_state \<Rightarrow> pci_state option" where
  "pci_visit_marked_mmio g sg st =
     (case pci_sweep_mmio g sg st of
        None \<Rightarrow> None
      | Some (visit_count, st1) \<Rightarrow>
          if 0 < visit_count then pci_visit_marked_mmio g sg st1 else Some st1)"

declare pci_visit_marked_mmio.simps [code]

definition pci_discover_segment_mmio ::
  "pci_indet \<Rightarrow> pci_segment option \<Rightarrow> pci_state \<Rightarrow> pci_state option" where
  "pci_discover_segment_mmio g sg st =
     (case pci_device_get_info_mmio (pci_make_loc 0 0 0 0) (ind_seg_nfo g) (ind_seg_tmp g 0) of
        (r0, nfo) \<Rightarrow>
          if r0 \<noteq> 0 then Some st
          else
            (case (if \<not> multi_func nfo then pci_discover_bus_mmio g sg 0 st
                   else pci_discover_controllers_mmio g sg [0..<8] nfo st) of
               None \<Rightarrow> None
             | Some st1 \<Rightarrow> pci_visit_marked_mmio g sg st1))"

text \<open>
  The loop \<open>for (u32 i = 0; i < pcie_segments_cnt; i++)\<close> of \<open>init_pci\<close>: one call of
  \<open>pci_discover_segment\<close> for each segment, all on the same array \<open>pci_buses\<close>, which
  nothing resets in between. \<open>g i\<close> gives the indeterminate contents for call \<open>i\<close>.
\<close>

fun init_pci_segments ::
  "(nat \<Rightarrow> pci_indet) \<Rightarrow> nat \<Rightarrow> pci_segment list \<Rightarrow> pci_state \<Rightarrow> pci_state option" where
  "init_pci_segments g i [] st = Some st"
| "init_pci_segments g i (sg # sgs) st =
     (case pci_discover_segment_mmio (g i) (Some sg) st of
        None \<Rightarrow> None
      | Some st1 \<Rightarrow> init_pci_segments g (Suc i) sgs st1)"

text \<open>
  \<open>init_pci\<close>. \<open>init_pci_ecam\<close> reads the ACPI tables, which are outside the program:
  what it leaves in \<open>pcie_segments\<close> and \<open>pcie_segments_cnt\<close> is the list
  \<open>pcie_segments\<close> here, empty when there is no ACPI, no MCFG table, an error or no
  memory. With a segment in the list \<open>init_pci\<close> installs the memory-mapped backend and
  discovers every segment; with none it installs the I/O-port backend and calls
  \<open>pci_discover_segment(NULL)\<close>.
\<close>

definition init_pci ::
  "pci_hw \<Rightarrow> (nat \<Rightarrow> pci_indet) \<Rightarrow> pci_segment list \<Rightarrow> pci_state option" where
  "init_pci hw g pcie_segments =
     (if pcie_segments \<noteq> []
      then init_pci_segments g 0 pcie_segments pci_boot_state
      else pci_discover_segment hw None pci_boot_state)"

section \<open>Notions used to state the properties of select()\<close>

text \<open>
  A descriptor is ready for a kind when it resolves to a handle and the readiness
  predicate of that kind holds for the handle: the test \<open>h && is_ready(h)\<close> of the
  source.
\<close>

definition fd_ready :: "world \<Rightarrow> rwe \<Rightarrow> nat \<Rightarrow> bool" where
  "fd_ready w k j = (case get_fs_handle w j of None \<Rightarrow> False | Some h \<Rightarrow> grf w k h)"

text \<open>The descriptors below \<open>n\<close> of a set that are ready, and their number.\<close>

definition ready_fds :: "world \<Rightarrow> nat \<Rightarrow> rwe \<Rightarrow> fd_set \<Rightarrow> fd_set" where
  "ready_fds w n k s = {j \<in> s. j < n \<and> fd_ready w k j}"

definition ready_count :: "world \<Rightarrow> select_ctx \<Rightarrow> rwe \<Rightarrow> nat" where
  "ready_count w c k = (case sets c k of None \<Rightarrow> 0 | Some s \<Rightarrow> card (ready_fds w (nfds c) k s))"

text \<open>
  The set that the report phase leaves: a descriptor below \<open>n\<close> stays only when it is
  ready, and the bits from \<open>n\<close> on are not touched.
\<close>

definition reported_set :: "world \<Rightarrow> nat \<Rightarrow> rwe \<Rightarrow> fd_set \<Rightarrow> fd_set" where
  "reported_set w n k s = {j \<in> s. j < n \<longrightarrow> fd_ready w k j}"

text \<open>
  The copy of one set to user memory succeeds (or is not asked for); every copy of the
  report phase succeeds; the set written for one kind.
\<close>

definition set_out_ok :: "select_ctx \<Rightarrow> rwe \<Rightarrow> bool" where
  "set_out_ok c k = (u_sets c k = UNull \<or> (sets c k \<noteq> None \<and> copy_to_user (u_sets c k)))"

definition copy_out_ok :: "select_ctx \<Rightarrow> bool" where
  "copy_out_ok c =
     (set_out_ok c RD \<and> set_out_ok c WR \<and> set_out_ok c EXC
      \<and> (tv c = None \<or> copy_to_user (user_tv c)))"

definition set_write :: "world \<Rightarrow> select_ctx \<Rightarrow> rwe \<Rightarrow> (rwe \<times> fd_set) list" where
  "set_write w c k =
     (if u_sets c k = UNull then []
      else case sets c k of None \<Rightarrow> [] | Some s \<Rightarrow> [(k, reported_set w (nfds c) k s)])"

text \<open>The context that \<open>sys_select\<close> has built when its inputs are copied in.\<close>

definition select_ctx_of ::
  "nat \<Rightarrow> (rwe \<Rightarrow> fd_set uptr) \<Rightarrow> timeval uptr \<Rightarrow> timeval option \<Rightarrow> u32 \<Rightarrow> select_ctx" where
  "select_ctx_of user_nfds us utv tvo ticks =
     (let c = \<lparr>nfds = user_nfds,
                sets = (\<lambda>k. copy_from_user (us k)),
                u_sets = us,
                tv = None,
                user_tv = utv,
                cond_cnt = 0,
                timeout_ticks = ticks\<rparr>
      in case tvo of None \<Rightarrow> c | Some t \<Rightarrow> ctx_store_tv t c)"

text \<open>
  The bits of the kernel copy of a set that no store into the \<open>timeval\<close> reaches: all
  of them when no \<open>timeval\<close> is passed, all of them for the write and the except set,
  and for the read set the bits outside the bytes 3 to 10 that the \<open>timeval\<close> occupies.
\<close>

definition own_bit :: "timeval uptr \<Rightarrow> rwe \<Rightarrow> nat \<Rightarrow> bool" where
  "own_bit utv k i = (utv = UNull \<or> k \<noteq> RD \<or> i < 24 \<or> 88 \<le> i)"

text \<open>
  The kernel copies of the sets are those of the caller on the bits that no store into
  the \<open>timeval\<close> reaches, for \<open>nfds = n\<close>; and there is no \<open>timeval\<close> in the
  context when none is passed.
\<close>

definition ctx_agrees ::
  "nat \<Rightarrow> (rwe \<Rightarrow> fd_set uptr) \<Rightarrow> timeval uptr \<Rightarrow> select_ctx \<Rightarrow> bool" where
  "ctx_agrees n us utv c =
     (nfds c = n \<and> u_sets c = us \<and> (utv = UNull \<longrightarrow> tv c = None)
      \<and> (\<forall>k. case sets c k of
                None \<Rightarrow> copy_from_user (us k) = None
              | Some a \<Rightarrow>
                  (\<exists>s. copy_from_user (us k) = Some s
                       \<and> (\<forall>i. own_bit utv k i \<longrightarrow> (i \<in> a) = (i \<in> s)))))"

text \<open>
  A set of the context names, below \<open>nfds\<close>, a descriptor that does not resolve to a
  handle.
\<close>

definition bad_fd :: "world \<Rightarrow> select_ctx \<Rightarrow> rwe \<Rightarrow> bool" where
  "bad_fd w c k = (\<exists>s i. sets c k = Some s \<and> i \<in> s \<and> i < nfds c \<and> get_fs_handle w i = None)"

section \<open>Notions used to state the properties of the enumeration\<close>

text \<open>
  From \<open>st\<close> to \<open>st'\<close> buses were only marked: no bus was visited, an entry of the array
  is unchanged or went from \<open>BUS_NOT_VISITED\<close> to \<open>BUS_TO_VISIT\<close>, every bus marked
  in between is no longer \<open>BUS_NOT_VISITED\<close>, and every store in between is such a step.
\<close>

definition marked_only :: "pci_state \<Rightarrow> pci_state \<Rightarrow> bool" where
  "marked_only st st' =
     (visits st' = visits st
      \<and> (\<forall>b. pci_buses st' b = pci_buses st b
               \<or> (pci_buses st b = BUS_NOT_VISITED \<and> pci_buses st' b = BUS_TO_VISIT))
      \<and> (\<exists>ms. marks st' = marks st @ ms \<and> (\<forall>b \<in> set ms. pci_buses st' b \<noteq> BUS_NOT_VISITED))
      \<and> (\<exists>ws. writes st' = writes st @ ws
                \<and> (\<forall>x \<in> set ws. fst (snd x) = BUS_NOT_VISITED \<and> snd (snd x) = BUS_TO_VISIT)))"

text \<open>A store into the array that moves an entry forward.\<close>

definition advances :: "u8 \<times> u8 \<times> u8 \<Rightarrow> bool" where
  "advances x =
     ((fst (snd x) = BUS_NOT_VISITED \<and> snd (snd x) = BUS_TO_VISIT)
      \<or> (fst (snd x) = BUS_NOT_VISITED \<and> snd (snd x) = BUS_VISITED)
      \<or> (fst (snd x) = BUS_TO_VISIT \<and> snd (snd x) = BUS_VISITED))"

text \<open>
  What holds of the state all along a run: the entries that are \<open>BUS_VISITED\<close> are the
  buses visited, no bus was visited twice, a bus that was marked is not
  \<open>BUS_NOT_VISITED\<close>, every entry is one of the three states, and every store moved
  an entry forward.
\<close>

definition pci_inv :: "pci_state \<Rightarrow> bool" where
  "pci_inv st =
     ((\<forall>b. (pci_buses st b = BUS_VISITED) = (b \<in> set (visits st)))
      \<and> distinct (visits st)
      \<and> (\<forall>b \<in> set (marks st). pci_buses st b \<noteq> BUS_NOT_VISITED)
      \<and> (\<forall>b. pci_buses st b = BUS_NOT_VISITED \<or> pci_buses st b = BUS_TO_VISIT
               \<or> pci_buses st b = BUS_VISITED)
      \<and> (\<forall>x \<in> set (writes st). advances x))"

section \<open>Concrete configurations and inputs\<close>

definition cfg100 :: config where
  "cfg100 = \<lparr>TIMER_HZ = 100, TS_SCALE = 1000000000, MAX_HANDLES = 16\<rparr>"

definition cfg_coarse :: config where
  "cfg_coarse = \<lparr>TIMER_HZ = 100, TS_SCALE = 2000000000, MAX_HANDLES = 16\<rparr>"

definition st_fast :: time_state where
  "st_fast = \<lparr>time_ns = 3601250000000, boot_timestamp = 1000, tick_adj_val = 0,
              tick_adj_ticks_rem = 0\<rparr>"

text \<open>A machine with no PCI device at all: every configuration read gives all ones.\<close>

definition hw_empty :: pci_hw where
  "hw_empty = \<lparr>inb = (\<lambda>a p. - 1), inw = (\<lambda>a p. - 1), inl = (\<lambda>a p. - 1)\<rparr>"

text \<open>
  Two states of the VFS: one where no descriptor is open, and one where descriptor 0 is
  open on handle 7, which has a condition variable for reading and is ready for reading
  only.
\<close>

definition w_closed :: world where
  "w_closed = \<lparr>get_fs_handle = (\<lambda>i. None), gcf = (\<lambda>k h. None), grf = (\<lambda>k h. False)\<rparr>"

definition w_open0 :: world where
  "w_open0 = \<lparr>get_fs_handle = (\<lambda>i. if i = 0 then Some 7 else None),
              gcf = (\<lambda>k h. if k = RD then Some 3 else None),
              grf = (\<lambda>k h. k = RD)\<rparr>"

definition env_closed :: select_env where
  "env_closed = \<lparr>w0 = w_closed, alloc_ok = True, wakeups = [], w_slept = w_closed\<rparr>"

definition env_open0 :: select_env where
  "env_open0 = \<lparr>w0 = w_open0, alloc_ok = True, wakeups = [], w_slept = w_open0\<rparr>"

definition tv_zero :: timeval where
  "tv_zero = \<lparr>tv_sec = 0, tv_usec = 0\<rparr>"

text \<open>A context of the report phase: descriptors 0 and 1 asked for reading, two in all.\<close>

definition ctx_01 :: select_ctx where
  "ctx_01 = select_ctx_of 2 (user_sets (URW {0, 1}) UNull UNull) (URW tv_zero) (Some tv_zero) 0"

text \<open>
  A machine with one PCI function, at bus 0, device 0, function 0: a PCI-to-PCI bridge
  (class 6, subclass 4, header type 1) whose secondary and subordinate bus are both 1.
  Nothing answers on bus 1.
\<close>

definition hw_bridge :: pci_hw where
  "hw_bridge =
     \<lparr>inb = (\<lambda>a p. if a = 0x8000000C then 0x01
                    else if a = 0x80000018 \<and> (p = 0xcfd \<or> p = 0xcfe) then 0x01
                    else - 1),
      inw = (\<lambda>a p. - 1),
      inl = (\<lambda>a p. if a = 0x80000000 then 0x00018086
                    else if a = 0x80000008 then 0x06040000
                    else - 1)\<rparr>"

text \<open>A configuration with a descriptor table of 32 entries.\<close>

definition cfg_wide :: config where
  "cfg_wide = \<lparr>TIMER_HZ = 100, TS_SCALE = 1000000000, MAX_HANDLES = 32\<rparr>"

text \<open>
  Two allocations of an MCFG table for the same segment group 0, one for the buses 0 to
  127 and one for the buses 128 to 255.
\<close>

definition seg_a :: pci_segment where
  "seg_a = \<lparr>base_paddr = 0xE0000000, segment = 0, start_bus = 0, end_bus = 127\<rparr>"

definition seg_b :: pci_segment where
  "seg_b = \<lparr>base_paddr = 0xE8000000, segment = 0, start_bus = 128, end_bus = 255\<rparr>"

text \<open>
  Indeterminate contents of the locals for one call of \<open>pci_discover_segment\<close>. In
  \<open>indet_root\<close> the \<open>nfo\<close> of \<open>pci_discover_segment\<close> holds a vendor id that is
  neither 0 nor \<open>0xffff\<close> and everything else is zero: no multi-function root and no
  device on any bus. In \<open>indet_bridge\<close> the \<open>nfo\<close> of \<open>pci_discover_device\<close> holds
  such a vendor id too, with the class and subclass of a PCI-to-PCI bridge, and
  \<open>subordinate_bus\<close> holds \<open>UINT32_MAX\<close>.
\<close>

definition indet_root :: pci_indet where
  "indet_root =
     \<lparr>ind_seg_nfo = \<lparr>dev_vendr = 0x12378086, class_info = 0x06000000, header_type = 0\<rparr>,
      ind_seg_tmp = (\<lambda>i. 0),
      ind_dev_nfo = (\<lambda>loc. \<lparr>dev_vendr = 0, class_info = 0, header_type = 0\<rparr>),
      ind_func_nfo = (\<lambda>loc. \<lparr>dev_vendr = 0, class_info = 0, header_type = 0\<rparr>),
      ind_tmp = (\<lambda>loc. 0),
      ind_secondary = (\<lambda>loc. 0),
      ind_subordinate = (\<lambda>loc. 0)\<rparr>"

definition indet_bridge :: pci_indet where
  "indet_bridge =
     \<lparr>ind_seg_nfo = \<lparr>dev_vendr = 0x12378086, class_info = 0x06000000, header_type = 0\<rparr>,
      ind_seg_tmp = (\<lambda>i. 0),
      ind_dev_nfo = (\<lambda>loc. \<lparr>dev_vendr = 0x12378086, class_info = 0x06040000, header_type = 0\<rparr>),
      ind_func_nfo = (\<lambda>loc. \<lparr>dev_vendr = 0, class_info = 0, header_type = 0\<rparr>),
      ind_tmp = (\<lambda>loc. 0),
      ind_secondary = (\<lambda>loc. 0),
      ind_subordinate = (\<lambda>loc. - 1)\<rparr>"


text \<open>A system booted at second \<open>2^31\<close> of the epoch (in 2038), an hour ago.\<close>

definition st_2038 :: time_state where
  "st_2038 = \<lparr>time_ns = 3601250000000, boot_timestamp = 2147483648, tick_adj_val = 0,
              tick_adj_ticks_rem = 0\<rparr>"

section \<open>Properties of the drift compensator\<close>












section \<open>Properties of the time API\<close>

lemma unat_of_nat64: "n < 2 ^ 31 \<Longrightarrow> unat (word_of_nat n :: u64) = n"
  by (simp add: unat_of_nat)

lemma u64_div_scale:
  assumes "n < 2 ^ 31"
  shows "(t :: u64) div word_of_nat n = word_of_int (int (unat t div n))"
proof -
  have "unat (t div word_of_nat n) = unat t div n"
    using assms by (simp add: unat_div unat_of_nat64)
  then have "word_of_nat (unat (t div word_of_nat n)) = (word_of_nat (unat t div n) :: u64)"
    by simp
  then show ?thesis by simp
qed

lemma u64_mod_scale:
  assumes "n < 2 ^ 31"
  shows "unat ((t :: u64) mod word_of_nat n) = unat t mod n"
  using assms by (simp add: unat_mod unat_of_nat64)

lemma is_down_64_32: "is_down (ucast :: u64 \<Rightarrow> u32)"
  by (simp add: is_down)

lemma ucast_of_int_64_32: "(ucast (word_of_int x :: u64) :: u32) = word_of_int x"
  by (rule ucast_down_wi [OF is_down_64_32])

lemma ucast_sint_64_32: "(ucast (w :: u64) :: u32) = word_of_int (sint w)"
  using ucast_of_int_64_32 [of "sint w"] by simp

lemma sint_ucast_small:
  assumes "unat (w :: u64) < 2 ^ 31"
  shows "sint (ucast w :: s32) = int (unat w)"
proof -
  have "(ucast w :: u32) = word_of_int (int (unat w))"
    using ucast_of_int_64_32 [of "int (unat w)"] by simp
  then have "sint (ucast w :: s32) = signed_take_bit 31 (int (unat w))"
    by (simp only: sint_sbintrunc') simp
  also have "\<dots> = int (unat w)"
  proof (rule signed_take_bit_int_eq_self)
    have "(0::int) \<le> int (unat w)" by simp
    then show "- (2 ^ 31) \<le> int (unat w)" by (rule order_trans [rotated]) simp
    show "int (unat w) < 2 ^ 31" using assms by (simp only: of_nat_less_numeral_power_cancel_iff)
  qed
  finally show ?thesis .
qed

lemma get_timestamp_of_int:
  assumes "TS_SCALE cfg < 2 ^ 31"
  shows "get_timestamp cfg st
           = word_of_int (sint (boot_timestamp st) + int (unat (time_ns st) div TS_SCALE cfg))"
  using assms by (simp add: get_timestamp_def get_sys_time_def u64_div_scale)

lemma tv_sec_of_int:
  assumes "TS_SCALE cfg < 2 ^ 31"
  shows "timespec.tv_sec (real_time_get_timespec cfg st)
           = word_of_int (sint (boot_timestamp st) + int (unat (time_ns st) div TS_SCALE cfg))"
proof -
  have "timespec.tv_sec (real_time_get_timespec cfg st)
          = ucast (boot_timestamp st) + ucast (time_ns st div word_of_nat (TS_SCALE cfg))"
    by (simp add: real_time_get_timespec_def get_sys_time_def Let_def)
  also have "\<dots> = word_of_int (sint (boot_timestamp st))
                     + word_of_int (int (unat (time_ns st) div TS_SCALE cfg))"
    by (simp only: u64_div_scale [OF assms] ucast_of_int_64_32
          ucast_sint_64_32 [of "boot_timestamp st"])
  finally show ?thesis by simp
qed

lemma tv_nsec_mult:
  assumes "0 < TS_SCALE cfg" "TS_SCALE cfg \<le> BILLION"
  shows "sint (tv_nsec (real_time_get_timespec cfg st))
           = int ((unat (time_ns st) mod TS_SCALE cfg) * (BILLION div TS_SCALE cfg))"
proof -
  let ?ts = "TS_SCALE cfg" and ?t = "time_ns st"
  have ts: "?ts < 2 ^ 31" using assms by (simp add: BILLION_def)
  have k: "BILLION div ?ts < 2 ^ 31"
    by (rule le_less_trans [OF div_le_dividend]) (simp add: BILLION_def)
  have "(unat ?t mod ?ts) * (BILLION div ?ts) \<le> ?ts * (BILLION div ?ts)"
    using assms(1) by (intro mult_le_mono1) (simp add: less_imp_le)
  also have "\<dots> \<le> BILLION" by simp
  finally have b: "(unat ?t mod ?ts) * (BILLION div ?ts) \<le> 1000000000"
    by (simp add: BILLION_def)
  have "unat ((?t mod word_of_nat ?ts) * word_of_nat (BILLION div ?ts))
          = (unat ?t mod ?ts) * (BILLION div ?ts) mod 2 ^ 64"
    by (simp only: unat_word_ariths(2) u64_mod_scale [OF ts] unat_of_nat64 [OF k]) simp
  also have "\<dots> = (unat ?t mod ?ts) * (BILLION div ?ts)"
    using b by simp
  finally have "unat ((?t mod word_of_nat ?ts) * word_of_nat (BILLION div ?ts))
          = (unat ?t mod ?ts) * (BILLION div ?ts)" .
  moreover have "tv_nsec (real_time_get_timespec cfg st)
          = ucast ((?t mod word_of_nat ?ts) * word_of_nat (BILLION div ?ts))"
    using assms(2) by (simp add: real_time_get_timespec_def get_sys_time_def Let_def)
  ultimately show ?thesis
    using b sint_ucast_small [of "(?t mod word_of_nat ?ts) * word_of_nat (BILLION div ?ts)"]
    by simp
qed

lemma tv_nsec_div:
  assumes "BILLION < TS_SCALE cfg" "TS_SCALE cfg < 2 ^ 31"
  shows "sint (tv_nsec (real_time_get_timespec cfg st))
           = int ((unat (time_ns st) mod TS_SCALE cfg) div (TS_SCALE cfg div BILLION))"
proof -
  let ?ts = "TS_SCALE cfg" and ?t = "time_ns st"
  have k: "?ts div BILLION < 2 ^ 31"
    by (rule le_less_trans [OF div_le_dividend]) (rule assms(2))
  have "unat ?t mod ?ts < ?ts" using assms(1) by (simp add: BILLION_def)
  then have b: "(unat ?t mod ?ts) div (?ts div BILLION) < 2 ^ 31"
    using assms(2) by (meson div_le_dividend le_less_trans less_trans)
  have "unat ((?t mod word_of_nat ?ts) div word_of_nat (?ts div BILLION))
          = (unat ?t mod ?ts) div (?ts div BILLION)"
    by (simp add: unat_div u64_mod_scale [OF assms(2)] unat_of_nat64 [OF k])
  moreover have "tv_nsec (real_time_get_timespec cfg st)
          = ucast ((?t mod word_of_nat ?ts) div word_of_nat (?ts div BILLION))"
    using assms(1) by (simp add: real_time_get_timespec_def get_sys_time_def Let_def)
  ultimately show ?thesis
    using b sint_ucast_small [of "(?t mod word_of_nat ?ts) div word_of_nat (?ts div BILLION)"]
    by simp
qed

text \<open>
  Claim C7, as amended. \<open>get_timestamp\<close> returns \<open>boot_timestamp + time_ns / TS_SCALE\<close>
  whenever that sum fits the 64-bit result; \<open>real_time_get_timespec\<close> stores the same
  sum in \<open>tv_sec\<close> whenever it fits the 32-bit \<open>time_t\<close> of the target, and in any
  case its low 32 bits; and it stores in \<open>tv_nsec\<close> the remainder
  \<open>time_ns % TS_SCALE\<close> rescaled to nanoseconds: multiplied by \<open>BILLION / TS_SCALE\<close>
  when \<open>TS_SCALE <= BILLION\<close>, divided by \<open>TS_SCALE / BILLION\<close> otherwise.
\<close>

theorem timestamp_and_timespec:
  assumes "0 < TS_SCALE cfg" and "TS_SCALE cfg < 2 ^ 31"
  shows "(let secs = sint (boot_timestamp st) + int (unat (time_ns st) div TS_SCALE cfg);
              r = unat (time_ns st) mod TS_SCALE cfg;
              tp = real_time_get_timespec cfg st
          in sint (get_timestamp cfg st) = signed_take_bit 63 secs
             \<and> (- (2 ^ 63) \<le> secs \<and> secs < 2 ^ 63 \<longrightarrow> sint (get_timestamp cfg st) = secs)
             \<and> sint (timespec.tv_sec tp) = signed_take_bit 31 secs
             \<and> (- (2 ^ 31) \<le> secs \<and> secs < 2 ^ 31 \<longrightarrow> sint (timespec.tv_sec tp) = secs)
             \<and> sint (timespec.tv_nsec tp) =
                 (if TS_SCALE cfg \<le> BILLION then int (r * (BILLION div TS_SCALE cfg))
                  else int (r div (TS_SCALE cfg div BILLION))))"
proof -
  let ?secs = "sint (boot_timestamp st) + int (unat (time_ns st) div TS_SCALE cfg)"
  have 1: "sint (get_timestamp cfg st) = signed_take_bit 63 ?secs"
    by (simp only: get_timestamp_of_int [OF assms(2)] sint_sbintrunc') simp
  have 2: "sint (get_timestamp cfg st) = ?secs" if "- (2 ^ 63) \<le> ?secs" "?secs < 2 ^ 63"
    unfolding 1 using that by (rule signed_take_bit_int_eq_self)
  have 3: "sint (timespec.tv_sec (real_time_get_timespec cfg st)) = signed_take_bit 31 ?secs"
    by (simp only: tv_sec_of_int [OF assms(2)] sint_sbintrunc') simp
  have 4: "sint (timespec.tv_sec (real_time_get_timespec cfg st)) = ?secs"
    if "- (2 ^ 31) \<le> ?secs" "?secs < 2 ^ 31"
    unfolding 3 using that by (rule signed_take_bit_int_eq_self)
  have 5: "sint (tv_nsec (real_time_get_timespec cfg st)) =
             (if TS_SCALE cfg \<le> BILLION
              then int ((unat (time_ns st) mod TS_SCALE cfg) * (BILLION div TS_SCALE cfg))
              else int ((unat (time_ns st) mod TS_SCALE cfg) div (TS_SCALE cfg div BILLION)))"
    using tv_nsec_mult [OF assms(1), of st] tv_nsec_div [OF _ assms(2), of st]
    by (simp only: not_le split: if_split) blast
  show ?thesis
    unfolding Let_def using 1 2 3 4 5 by blast
qed

theorem timestamp_and_timespec_witness:
  "sint (get_timestamp cfg100 st_fast) = 4601
   \<and> sint (timespec.tv_sec (real_time_get_timespec cfg100 st_fast)) = 4601
   \<and> sint (tv_nsec (real_time_get_timespec cfg100 st_fast)) = 250000000
   \<and> sint (tv_nsec (real_time_get_timespec cfg_coarse st_fast)) = 625000000"
proof -
  have a: "0 < TS_SCALE cfg100" "TS_SCALE cfg100 < 2 ^ 31"
    by (simp_all add: cfg100_def)
  have b: "0 < TS_SCALE cfg_coarse" "TS_SCALE cfg_coarse < 2 ^ 31"
    by (simp_all add: cfg_coarse_def)
  show ?thesis
    using timestamp_and_timespec [OF a, of st_fast] timestamp_and_timespec [OF b, of st_fast]
    by (simp add: Let_def cfg100_def cfg_coarse_def st_fast_def BILLION_def)
qed

text \<open>
  Claim C7 as it is written fails from second \<open>2^31\<close> of the epoch on: for a system
  booted at that second and up for an hour, \<open>get_timestamp\<close> returns 2147487249 and
  \<open>tv_sec\<close> is that sum cut to 32 bits, a negative number.
\<close>

theorem real_time_get_timespec_2038_counterexample:
  "sint (boot_timestamp st_2038) + int (unat (time_ns st_2038) div TS_SCALE cfg100) = 2147487249
   \<and> sint (get_timestamp cfg100 st_2038) = 2147487249
   \<and> sint (timespec.tv_sec (real_time_get_timespec cfg100 st_2038)) = - 2147480047"
  by (simp add: get_timestamp_def get_sys_time_def cfg100_def st_2038_def
        real_time_get_timespec_def Let_def BILLION_def)

section \<open>Properties of the I/O-port configuration backend\<close>

lemma and_low_mask_dvd:
  fixes off :: u32
  shows "(off AND mask n = 0) = (2 ^ n dvd unat off)"
proof -
  have "(off AND mask n = 0) = (unat (take_bit n off) = 0)"
    by (simp add: take_bit_eq_mask unat_eq_0)
  also have "\<dots> = (unat off mod 2 ^ n = 0)"
    by (simp only: unsigned_take_bit_eq) (simp only: take_bit_eq_mod)
  finally show ?thesis by (simp add: dvd_eq_mod_eq_0)
qed

lemma aligned16: "(off AND (drop_bit 3 (16::u32) - 1) = 0) = (2 dvd unat off)"
  using and_low_mask_dvd [of off 1] by (simp add: mask_eq_exp_minus_1)

lemma aligned32: "(off AND (drop_bit 3 (32::u32) - 1) = 0) = (4 dvd unat off)"
  using and_low_mask_dvd [of off 2] by (simp add: mask_eq_exp_minus_1)

lemma pci_ioport_config_read_rc:
  "fst (pci_ioport_config_read hw loc off width) =
     (if seg loc \<noteq> 0 \<or> 256 \<le> unat off \<or> \<not> (unat width div 8) dvd unat off
         \<or> width \<notin> {8, 16, 32}
      then - EINVAL else 0)"
proof (cases "width = 8 \<or> width = 16 \<or> width = 32")
  case True
  then show ?thesis
    using aligned16 [of off] aligned32 [of off]
    by (auto simp: pci_ioport_config_read_def Let_def word_le_nat_alt)
next
  case False
  then show ?thesis
    by (auto simp: pci_ioport_config_read_def Let_def)
qed

lemma pci_ioport_config_write_rc:
  "fst (pci_ioport_config_write loc off width v) =
     (if seg loc \<noteq> 0 \<or> 256 \<le> unat off \<or> \<not> (unat width div 8) dvd unat off
         \<or> width \<notin> {8, 16, 32}
      then - EINVAL else 0)"
proof (cases "width = 8 \<or> width = 16 \<or> width = 32")
  case True
  then show ?thesis
    using aligned16 [of off] aligned32 [of off]
    by (auto simp: pci_ioport_config_write_def Let_def word_le_nat_alt)
next
  case False
  then show ?thesis
    by (auto simp: pci_ioport_config_write_def Let_def)
qed

text \<open>
  Claim C8. The read and the write of the legacy I/O-port backend return \<open>-EINVAL\<close>
  exactly when the segment is not 0, or the offset is 256 or more, or the offset is not a
  multiple of \<open>width / 8\<close>, or the width is none of 8, 16 and 32; on every other input
  they return 0.
\<close>

theorem pci_ioport_config_einval_iff:
  "(let bad = (seg loc \<noteq> 0 \<or> 256 \<le> unat off \<or> \<not> (unat width div 8) dvd unat off
                \<or> width \<notin> {8, 16, 32});
        r = fst (pci_ioport_config_read hw loc off width);
        w = fst (pci_ioport_config_write loc off width v)
    in (r = - EINVAL) = bad \<and> (r = 0) = (\<not> bad) \<and> (w = - EINVAL) = bad \<and> (w = 0) = (\<not> bad))"
  unfolding Let_def pci_ioport_config_read_rc pci_ioport_config_write_rc
  by (simp add: EINVAL_def)

theorem pci_ioport_config_einval_iff_witness:
  "fst (pci_ioport_config_read hw_empty (pci_make_loc 0 0 0 0) 0x0e 8) = 0
   \<and> fst (pci_ioport_config_write (pci_make_loc 0 0 0 0) 0x0e 8 1) = 0
   \<and> fst (pci_ioport_config_read hw_empty (pci_make_loc 0 0 0 0) 0x19 16) = - EINVAL
   \<and> fst (pci_ioport_config_write (pci_make_loc 1 0 0 0) 0 32 1) = - EINVAL"
  using pci_ioport_config_einval_iff [of "pci_make_loc 0 0 0 0" "0x0e" 8 hw_empty 1]
    pci_ioport_config_einval_iff [of "pci_make_loc 0 0 0 0" "0x19" 16 hw_empty 1]
    pci_ioport_config_einval_iff [of "pci_make_loc 1 0 0 0" 0 32 hw_empty 1]
  by (simp add: Let_def pci_make_loc_def)

section \<open>Properties of select(): the timeout\<close>

lemma unat_scast_nonneg:
  assumes "0 \<le> sint (x :: s32)"
  shows "unat (scast x :: u64) = nat (sint x)"
proof -
  have lt: "sint x < 2 ^ 31" using sint_lt [of x] by simp
  have "uint (scast x :: u64) = sint x mod 2 ^ 64"
    unfolding scast_eq by (simp only: uint_word_of_int) simp
  also have "\<dots> = sint x" using assms lt by (intro mod_pos_pos_trivial) auto
  finally have "uint (scast x :: u64) = sint x" .
  then show ?thesis by (simp add: unat_eq_nat_uint)
qed

lemma unat_of_nat_u64: "n < 2 ^ 64 \<Longrightarrow> unat (word_of_nat n :: u64) = n"
  by (simp add: unat_of_nat)

lemma unat_ucast_64_32: "unat (ucast (w :: u64) :: u32) = unat w mod 2 ^ 32"
  by (simp add: unsigned_ucast_eq take_bit_eq_mod)

lemma select_tv_to_ticks_nonneg:
  assumes hz: "0 < TIMER_HZ cfg" "TIMER_HZ cfg \<le> 1000000"
    and sec: "0 \<le> sint (tv_sec t)" and usec: "0 \<le> sint (tv_usec t)"
  shows "unat (select_tv_to_ticks cfg t)
           = min (nat (sint (tv_sec t)) * TIMER_HZ cfg
                    + nat (sint (tv_usec t)) div (1000000 div TIMER_HZ cfg)) (2 ^ 32 - 1)"
    and "nat (sint (tv_sec t)) * TIMER_HZ cfg
           + nat (sint (tv_usec t)) div (1000000 div TIMER_HZ cfg) < 2 ^ 64"
    and "unat (select_tv_tmp cfg t)
         = nat (sint (tv_sec t)) * TIMER_HZ cfg
           + nat (sint (tv_usec t)) div (1000000 div TIMER_HZ cfg)"
proof -
  let ?hz = "TIMER_HZ cfg"
  let ?s = "nat (sint (tv_sec t))" and ?u = "nat (sint (tv_usec t))"
  let ?S = "scast (tv_sec t) :: u64" and ?U = "scast (tv_usec t) :: u64"
  let ?H = "word_of_nat ?hz :: u64"
  have sb: "?s < 2 ^ 31" using sint_lt [of "tv_sec t"] sec by simp
  have ub: "?u < 2 ^ 31" using sint_lt [of "tv_usec t"] usec by simp
  have uS: "unat ?S = ?s" by (rule unat_scast_nonneg [OF sec])
  have uU: "unat ?U = ?u" by (rule unat_scast_nonneg [OF usec])
  have uH: "unat ?H = ?hz" using hz by (intro unat_of_nat_u64) simp
  have "?s * ?hz \<le> 2 ^ 31 * 1000000"
    using sb hz by (intro mult_mono) auto
  then have pb: "?s * ?hz < 2 ^ 52" by simp
  have uP: "unat (?S * ?H) = ?s * ?hz"
    using pb by (simp add: unat_word_ariths(2) uS uH)
  have uD: "unat (1000000 div ?H) = 1000000 div ?hz"
    by (simp add: unat_div uH)
  have uQ: "unat (?U div (1000000 div ?H)) = ?u div (1000000 div ?hz)"
    using unat_div [of ?U "1000000 div ?H"] by (simp only: uU uD)
  have qb: "?u div (1000000 div ?hz) < 2 ^ 31"
    by (rule le_less_trans [OF div_le_dividend ub])
  show tot: "?s * ?hz + ?u div (1000000 div ?hz) < 2 ^ 64"
    using pb qb by simp
  have uT: "unat (?S * ?H + ?U div (1000000 div ?H)) = ?s * ?hz + ?u div (1000000 div ?hz)"
    using tot by (simp add: unat_word_ariths(1) uP uQ)
  then show "unat (select_tv_tmp cfg t) = ?s * ?hz + ?u div (1000000 div ?hz)"
    by (simp add: select_tv_tmp_def Let_def)
  have m: "unat (min (?S * ?H + ?U div (1000000 div ?H)) 0xFFFFFFFF)
             = min (?s * ?hz + ?u div (1000000 div ?hz)) (2 ^ 32 - 1)"
    by (simp add: min_def word_le_nat_alt uT)
  have "unat (ucast (min (?S * ?H + ?U div (1000000 div ?H)) 0xFFFFFFFF) :: u32)
          = unat (min (?S * ?H + ?U div (1000000 div ?H)) 0xFFFFFFFF)"
    unfolding unat_ucast_64_32 m by simp
  then show "unat (select_tv_to_ticks cfg t) = min (?s * ?hz + ?u div (1000000 div ?hz)) (2 ^ 32 - 1)"
    by (simp add: select_tv_to_ticks_def select_tv_tmp_def Let_def m)
qed

text \<open>
  Claim C6, as amended. For every readable \<open>timeval\<close> whose two fields are not negative,
  the derived timeout is \<open>min (tv_sec * TIMER_HZ + tv_usec / (1000000 / TIMER_HZ)) UINT32_MAX\<close>,
  and the 64-bit sum before the clamp is exact.
\<close>

theorem select_read_user_tv_ticks:
  assumes "0 < TIMER_HZ cfg" and "TIMER_HZ cfg \<le> 1000000"
    and "copy_from_user utv = Some t"
    and "0 \<le> sint (tv_sec t)" and "0 \<le> sint (tv_usec t)"
  shows "(let exact = nat (sint (tv_sec t)) * TIMER_HZ cfg
                        + nat (sint (tv_usec t)) div (1000000 div TIMER_HZ cfg)
          in select_read_user_tv cfg utv t0 = (0, Some t, select_tv_to_ticks cfg t)
             \<and> unat (select_tv_to_ticks cfg t) = min exact (2 ^ 32 - 1)
             \<and> unat (select_tv_tmp cfg t) = exact \<and> exact < 2 ^ 64)"
proof -
  have "utv \<noteq> UNull" using assms(3) by auto
  then have "select_read_user_tv cfg utv t0 = (0, Some t, select_tv_to_ticks cfg t)"
    using assms(3) by (simp add: select_read_user_tv_def)
  then show ?thesis
    unfolding Let_def
    using select_tv_to_ticks_nonneg [OF assms(1,2,4,5)] by simp
qed

theorem select_read_user_tv_ticks_witness:
  "select_read_user_tv cfg100 (URW \<lparr>tv_sec = 1, tv_usec = 500000\<rparr>) 0
     = (0, Some \<lparr>tv_sec = 1, tv_usec = 500000\<rparr>,
        select_tv_to_ticks cfg100 \<lparr>tv_sec = 1, tv_usec = 500000\<rparr>)
   \<and> unat (select_tv_to_ticks cfg100 \<lparr>tv_sec = 1, tv_usec = 500000\<rparr>) = 150"
  using select_read_user_tv_ticks
          [of cfg100 "URW \<lparr>tv_sec = 1, tv_usec = 500000\<rparr>" "\<lparr>tv_sec = 1, tv_usec = 500000\<rparr>" 0]
  by (simp add: Let_def cfg100_def)

text \<open>
  Claim C6 as it is written fails for a negative field: \<open>(u64)\<close> extends the sign of
  the \<open>long\<close>, so a \<open>timeval\<close> of 0 seconds and -1 microseconds gives \<open>UINT32_MAX\<close>
  ticks, where the formula gives 0.
\<close>

theorem select_read_user_tv_negative_counterexample:
  "\<not> (case select_read_user_tv cfg100 (URW \<lparr>tv_sec = 0, tv_usec = - 1\<rparr>) 0 of
        (r, tvo, ticks) \<Rightarrow>
          int (unat ticks)
            = min (sint (0 :: s32) * int (TIMER_HZ cfg100)
                     + sint (- 1 :: s32) sdiv (1000000 div int (TIMER_HZ cfg100)))
                (2 ^ 32 - 1))"
  by (simp add: select_read_user_tv_def select_tv_to_ticks_def select_tv_tmp_def Let_def
        cfg100_def signed_divide_int_def)

text \<open>
  A negative \<open>tv_sec\<close> is extended in the same way: for \<open>(-1, 0)\<close> the 64-bit sum is
  \<open>2^64 - TIMER_HZ\<close> and the timeout is \<open>UINT32_MAX\<close> ticks.
\<close>

lemma select_read_user_tv_negative_sec:
  "select_tv_tmp cfg100 \<lparr>tv_sec = - 1, tv_usec = 0\<rparr> = - 100
   \<and> select_tv_to_ticks cfg100 \<lparr>tv_sec = - 1, tv_usec = 0\<rparr> = 0xFFFFFFFF"
  by (simp add: select_tv_to_ticks_def select_tv_tmp_def Let_def cfg100_def)

section \<open>Properties of select(): the timeval inside the read set\<close>

lemma tv_bits_range: "x \<in> tv_bits t \<Longrightarrow> 24 \<le> x \<and> x < 88"
  by (auto simp: tv_bits_def)

lemma tv_over_set_below: "i < 24 \<Longrightarrow> (i \<in> tv_over_set t s) = (i \<in> s)"
  using tv_bits_range [of i t] by (auto simp: tv_over_set_def)

lemma tv_over_set_outside: "i < 24 \<or> 88 \<le> i \<Longrightarrow> (i \<in> tv_over_set t s) = (i \<in> s)"
  using tv_bits_range [of i t] by (auto simp: tv_over_set_def)

lemma tv_bits_zero: "tv_bits \<lparr>tv_sec = 0, tv_usec = 0\<rparr> = {}"
  by (simp add: tv_bits_def)

lemma tv_over_set_zero: "tv_over_set \<lparr>tv_sec = 0, tv_usec = 0\<rparr> s = s - {24..<88}"
  by (simp add: tv_over_set_def tv_bits_zero)

lemma tv_over_set_sec: "i < 32 \<Longrightarrow> (24 + i \<in> tv_over_set t s) = bit (tv_sec t) i"
  by (auto simp: tv_over_set_def tv_bits_def)

lemma tv_over_set_usec: "i < 32 \<Longrightarrow> (56 + i \<in> tv_over_set t s) = bit (tv_usec t) i"
  by (auto simp: tv_over_set_def tv_bits_def)

lemma bit_tv_of_set:
  "bit (tv_sec (tv_of_set s)) i = (i < 32 \<and> 24 + i \<in> s)"
  "bit (tv_usec (tv_of_set s)) i = (i < 32 \<and> 56 + i \<in> s)"
  by (auto simp: tv_of_set_def bit_horner_sum_bit_word_iff)

lemma tv_of_set_over: "tv_of_set (tv_over_set t s) = t"
proof -
  have "tv_sec (tv_of_set (tv_over_set t s)) = tv_sec t"
    by (rule bit_eqI) (auto simp: bit_tv_of_set tv_over_set_sec dest: bit_imp_le_length)
  moreover have "tv_usec (tv_of_set (tv_over_set t s)) = tv_usec t"
    by (rule bit_eqI) (auto simp: bit_tv_of_set tv_over_set_usec dest: bit_imp_le_length)
  ultimately show ?thesis by simp
qed

lemma tv_of_set_cong:
  assumes "\<forall>i. 24 \<le> i \<and> i < 88 \<longrightarrow> (i \<in> a) = (i \<in> b)"
  shows "tv_of_set a = tv_of_set b"
proof -
  have "tv_sec (tv_of_set a) = tv_sec (tv_of_set b)"
    by (rule bit_eqI) (use assms in \<open>auto simp: bit_tv_of_set\<close>)
  moreover have "tv_usec (tv_of_set a) = tv_usec (tv_of_set b)"
    by (rule bit_eqI) (use assms in \<open>auto simp: bit_tv_of_set\<close>)
  ultimately show ?thesis by simp
qed

lemma tv_of_set_low:
  assumes "\<forall>i \<in> s. i < 24"
  shows "tv_of_set s = \<lparr>tv_sec = 0, tv_usec = 0\<rparr>"
proof -
  have "tv_sec (tv_of_set s) = 0"
    by (rule bit_eqI) (use assms in \<open>auto simp: bit_tv_of_set\<close>)
  moreover have "tv_usec (tv_of_set s) = 0"
    by (rule bit_eqI) (use assms in \<open>auto simp: bit_tv_of_set\<close>)
  ultimately show ?thesis by simp
qed

lemma tv_at_report_None: "sets c RD = None \<Longrightarrow> tv_at_report w c t = t"
  by (simp add: tv_at_report_def select_set_ready_def)

section \<open>Properties of select(): the report phase\<close>

lemma select_set_ready_loop_Cons:
  "select_set_ready_loop w k (i # is) s tot =
     (if i \<notin> s then select_set_ready_loop w k is s tot
      else if fd_ready w k i then select_set_ready_loop w k is s (tot + 1)
      else select_set_ready_loop w k is (s - {i}) tot)"
  by (simp add: fd_ready_def split: option.splits)

lemma select_set_ready_loop_eq:
  "distinct is \<Longrightarrow>
   select_set_ready_loop w k is s tot
     = (tot + int (card {j \<in> s. j \<in> set is \<and> fd_ready w k j}),
        {j \<in> s. j \<in> set is \<longrightarrow> fd_ready w k j})"
proof (induction "is" arbitrary: s tot)
  case Nil
  then show ?case by simp
next
  case (Cons i "is")
  have d: "distinct is" and ni: "i \<notin> set is" using Cons.prems by simp_all
  note IH = Cons.IH [OF d]
  show ?case
  proof (cases "i \<in> s")
    case False
    then have "{j \<in> s. j \<in> set (i # is) \<and> fd_ready w k j} = {j \<in> s. j \<in> set is \<and> fd_ready w k j}"
      and "{j \<in> s. j \<in> set (i # is) \<longrightarrow> fd_ready w k j} = {j \<in> s. j \<in> set is \<longrightarrow> fd_ready w k j}"
      by auto
    with False show ?thesis by (simp only: select_set_ready_loop_Cons IH) simp
  next
    case True
    show ?thesis
    proof (cases "fd_ready w k i")
      case False
      have a: "{j \<in> s - {i}. j \<in> set is \<and> fd_ready w k j} = {j \<in> s. j \<in> set (i # is) \<and> fd_ready w k j}"
        using False by auto
      have b: "{j \<in> s - {i}. j \<in> set is \<longrightarrow> fd_ready w k j} = {j \<in> s. j \<in> set (i # is) \<longrightarrow> fd_ready w k j}"
        using False by auto
      from True False show ?thesis
        by (simp only: select_set_ready_loop_Cons IH a b) simp
    next
      case r: True
      have fin: "finite {j \<in> s. j \<in> set is \<and> fd_ready w k j}" by simp
      have a: "{j \<in> s. j \<in> set (i # is) \<and> fd_ready w k j}
                 = insert i {j \<in> s. j \<in> set is \<and> fd_ready w k j}"
        using True r by auto
      have c: "card {j \<in> s. j \<in> set (i # is) \<and> fd_ready w k j}
                 = Suc (card {j \<in> s. j \<in> set is \<and> fd_ready w k j})"
        unfolding a using ni fin by (subst card_insert_disjoint) auto
      have b: "{j \<in> s. j \<in> set is \<longrightarrow> fd_ready w k j} = {j \<in> s. j \<in> set (i # is) \<longrightarrow> fd_ready w k j}"
        using r by auto
      from True r show ?thesis
        by (simp only: select_set_ready_loop_Cons IH c b) simp
    qed
  qed
qed

lemma select_set_ready_eq:
  "select_set_ready w n (Some s) k = (int (card (ready_fds w n k s)), Some (reported_set w n k s))"
  using select_set_ready_loop_eq [of "[0..<n]" w k s 0]
  by (simp add: select_set_ready_def ready_fds_def reported_set_def)

lemma select_set_ready_None: "select_set_ready w n None k = (0, None)"
  by (simp add: select_set_ready_def)

lemma select_set_ready_ctx:
  "select_set_ready w (nfds c) (sets c k) k
     = (int (ready_count w c k),
        case sets c k of None \<Rightarrow> None | Some s \<Rightarrow> Some (reported_set w (nfds c) k s))"
  by (cases "sets c k") (simp_all add: select_set_ready_eq select_set_ready_None ready_count_def)

lemma select_write_user_sets_loop_Cons:
  "select_write_user_sets_loop w c (k # ks) tot wr =
     (if set_out_ok c k
      then select_write_user_sets_loop w c ks (tot + int (ready_count w c k)) (wr @ set_write w c k)
      else (- EFAULT, wr, False))"
  by (cases "sets c k")
     (auto simp: select_set_ready_eq select_set_ready_None ready_count_def set_out_ok_def
        set_write_def)

lemma select_write_user_sets_loop_eq:
  "select_write_user_sets_loop w c ks tot wr =
     (if \<forall>k \<in> set ks. set_out_ok c k
      then (tot + (\<Sum>k\<leftarrow>ks. int (ready_count w c k)), wr @ concat (map (set_write w c) ks), True)
      else (- EFAULT, wr @ concat (map (set_write w c) (takeWhile (set_out_ok c) ks)), False))"
proof (induction ks arbitrary: tot wr)
  case Nil
  then show ?case by simp
next
  case (Cons k ks)
  show ?case
    by (simp only: select_write_user_sets_loop_Cons Cons.IH) (simp add: algebra_simps)
qed

lemma select_write_user_sets_ok:
  assumes "copy_out_ok c"
  shows "select_write_user_sets w c
           = (int (ready_count w c RD) + int (ready_count w c WR) + int (ready_count w c EXC),
              set_write w c RD @ set_write w c WR @ set_write w c EXC,
              map_option (tv_at_report w c) (tv c))"
  using assms
  by (auto simp: select_write_user_sets_def select_write_user_sets_loop_eq copy_out_ok_def
           split: option.splits)

lemma select_write_user_sets_fault:
  assumes "\<not> copy_out_ok c"
  shows "fst (select_write_user_sets w c) = - EFAULT"
  using assms
  by (auto simp: select_write_user_sets_def select_write_user_sets_loop_eq copy_out_ok_def
           split: option.splits)

lemma set_write_mem:
  "(k, s') \<in> set (set_write w c k') \<Longrightarrow> k' = k \<and> (\<exists>s. sets c k = Some s \<and> s' = reported_set w (nfds c) k s)"
  by (cases "sets c k'") (auto simp: set_write_def split: if_splits)

lemma ready_fds_unresolved:
  "get_fs_handle w i = None \<Longrightarrow> ready_fds w n k (s - {i}) = ready_fds w n k s"
  by (auto simp: ready_fds_def fd_ready_def)

text \<open>
  Claim C9. In the report phase, a descriptor below \<open>nfds\<close> whose bit is set and that
  does not resolve to a handle is cleared from the set and adds nothing to the count; the
  phase never returns \<open>-EBADF\<close>: it returns the number of ready descriptors, which is
  not negative, or \<open>-EFAULT\<close> when a copy to user memory fails.
\<close>

theorem select_report_unresolved_fd:
  assumes "sets c k = Some s" and "i \<in> s" and "i < nfds c" and "get_fs_handle w i = None"
  shows "(case select_set_ready w (nfds c) (sets c k) k of
            (n, s') \<Rightarrow>
              s' = Some (reported_set w (nfds c) k s) \<and> i \<notin> reported_set w (nfds c) k s
              \<and> n = int (card (ready_fds w (nfds c) k (s - {i}))))
         \<and> (case select_write_user_sets w c of
               (r, wr, tw) \<Rightarrow>
                 r \<noteq> - EBADF
                 \<and> (if copy_out_ok c
                     then r = int (ready_count w c RD) + int (ready_count w c WR)
                                + int (ready_count w c EXC)
                          \<and> 0 \<le> r \<and> (\<forall>s'. (k, s') \<in> set wr \<longrightarrow> i \<notin> s')
                     else r = - EFAULT))"
proof -
  have nr: "i \<notin> reported_set w (nfds c) k s"
    using assms(3,4) by (simp add: reported_set_def fd_ready_def)
  have 1: "select_set_ready w (nfds c) (sets c k) k
             = (int (card (ready_fds w (nfds c) k (s - {i}))), Some (reported_set w (nfds c) k s))"
    by (simp add: assms(1) select_set_ready_eq ready_fds_unresolved [OF assms(4)])
  show ?thesis
  proof (cases "copy_out_ok c")
    case True
    have "i \<notin> s'" if "(k, s') \<in> set (set_write w c RD @ set_write w c WR @ set_write w c EXC)" for s'
      using that nr assms(1) by (auto dest!: set_write_mem)
    then show ?thesis
      using True nr by (simp add: 1 select_write_user_sets_ok EBADF_def)
  next
    case False
    then show ?thesis
      using nr select_write_user_sets_fault [OF False, of w]
      by (simp add: 1 split_beta EBADF_def EFAULT_def)
  qed
qed

lemma ctx_01_simps:
  "sets ctx_01 RD = Some {0, 1}" "sets ctx_01 WR = None" "sets ctx_01 EXC = None"
  "nfds ctx_01 = 2" "copy_out_ok ctx_01" "tv ctx_01 = Some tv_zero"
proof -
  have "{0, 1} - {24..<88} = {0, 1::nat}" by auto
  then show "sets ctx_01 RD = Some {0, 1}"
    by (simp add: ctx_01_def select_ctx_of_def user_sets_def ctx_store_tv_def tv_zero_def
          tv_over_set_zero)
qed (simp_all add: ctx_01_def select_ctx_of_def user_sets_def copy_out_ok_def set_out_ok_def
       ctx_store_tv_def)

lemma w_open0_ready:
  "ready_fds w_open0 2 RD {0, Suc 0} = {0}" "reported_set w_open0 2 RD {0, Suc 0} = {0}"
  "ready_fds w_open0 2 RD ({0, Suc 0} - {Suc 0}) = {0}"
  by (auto simp: ready_fds_def reported_set_def fd_ready_def w_open0_def split: if_splits)

theorem select_report_unresolved_fd_witness:
  "select_set_ready w_open0 2 (Some {0, 1}) RD = (1, Some {0})
   \<and> select_write_user_sets w_open0 ctx_01 = (1, [(RD, {0})], Some tv_zero)"
proof -
  have h: "get_fs_handle w_open0 1 = None" by (simp add: w_open0_def)
  have m: "(1::nat) \<in> {0, 1}" by simp
  have n: "(1::nat) < nfds ctx_01" by (simp add: ctx_01_simps)
  have t: "tv_at_report w_open0 ctx_01 tv_zero = tv_zero"
    using tv_of_set_low [of "{0}"]
    by (simp add: tv_at_report_def ctx_01_simps select_set_ready_eq w_open0_ready tv_zero_def)
  have u: "u_sets ctx_01 RD \<noteq> UNull"
    by (simp add: ctx_01_def select_ctx_of_def user_sets_def ctx_store_tv_def)
  have e: "select_write_user_sets w_open0 ctx_01 = (1, [(RD, {0})], Some tv_zero)"
    using u by (simp add: select_write_user_sets_ok ctx_01_simps ready_count_def set_write_def
          w_open0_ready t)
  show ?thesis
    using select_report_unresolved_fd [OF ctx_01_simps(1) m n h]
    by (auto simp: ctx_01_simps w_open0_ready e split: prod.splits)
qed

section \<open>Properties of select(): the call as a whole\<close>

lemma rwe_all: "(\<forall>k::rwe. P k) = (P RD \<and> P WR \<and> P EXC)"
  by (metis rwe.exhaust)

lemma copy_from_user_None: "(copy_from_user p = None) = (p = UNull \<or> p = UBad)"
  by (cases p) simp_all

lemma select_read_user_sets_ok:
  assumes "\<forall>k. us k \<noteq> UBad"
  shows "select_read_user_sets (\<lambda>k. None) us = (0, \<lambda>k. copy_from_user (us k))"
proof -
  have a: "us RD \<noteq> UBad" "us WR \<noteq> UBad" "us EXC \<noteq> UBad" using assms by simp_all
  have "snd (select_read_user_sets (\<lambda>k. None) us) k = copy_from_user (us k)"
    and "fst (select_read_user_sets (\<lambda>k. None) us) = 0" for k
    using a by (cases k; cases "us RD"; cases "us WR"; cases "us EXC";
        simp add: select_read_user_sets_def)+
  then show ?thesis by (auto simp: prod_eq_iff)
qed

lemma select_read_user_sets_bad:
  assumes "us k = UBad"
  shows "fst (select_read_user_sets (\<lambda>k. None) us) = - EFAULT"
  using assms
  by (cases k; cases "us RD"; cases "us WR"; cases "us EXC"; simp add: select_read_user_sets_def)

lemma select_count_cond_loop_rc:
  "fst (select_count_cond_loop w k s is c)
     = (if \<exists>i \<in> set is. i \<in> s \<and> get_fs_handle w i = None then - EBADF else 0)"
  by (induction "is" arbitrary: c) (auto split: option.splits)

lemma select_count_cond_loop_ctx:
  "\<exists>m. snd (select_count_cond_loop w k s is c) = c\<lparr>cond_cnt := m\<rparr>"
proof (induction "is" arbitrary: c)
  case Nil
  show ?case by (intro exI [of _ "cond_cnt c"]) simp
next
  case (Cons i "is")
  show ?case
  proof (cases "i \<in> s")
    case False
    then show ?thesis using Cons.IH [of c] by simp
  next
    case True
    show ?thesis
    proof (cases "get_fs_handle w i")
      case None
      with True show ?thesis by (intro exI [of _ "cond_cnt c"]) simp
    next
      case (Some h)
      obtain m where "snd (select_count_cond_loop w k s is
                        (if gcf w k h \<noteq> None then c\<lparr>cond_cnt := cond_cnt c + 1\<rparr> else c))
                      = (if gcf w k h \<noteq> None then c\<lparr>cond_cnt := cond_cnt c + 1\<rparr> else c)\<lparr>cond_cnt := m\<rparr>"
        using Cons.IH by blast
      then have "snd (select_count_cond_loop w k s (i # is) c) = c\<lparr>cond_cnt := m\<rparr>"
        using True Some by (simp split: if_splits)
      then show ?thesis by blast
    qed
  qed
qed

lemma select_count_cond_per_set_rc:
  "fst (select_count_cond_per_set w c (sets c k) k) = (if bad_fd w c k then - EBADF else 0)"
  by (cases "sets c k") (auto simp: select_count_cond_per_set_def select_count_cond_loop_rc bad_fd_def)

lemma select_count_cond_per_set_ctx:
  "\<exists>m. snd (select_count_cond_per_set w c so k) = c\<lparr>cond_cnt := m\<rparr>"
proof (cases so)
  case None
  then show ?thesis
    by (intro exI [of _ "cond_cnt c"]) (simp add: select_count_cond_per_set_def)
next
  case (Some s)
  then show ?thesis
    using select_count_cond_loop_ctx [of w k s "[0..<nfds c]" c]
    by (simp add: select_count_cond_per_set_def)
qed

lemma bad_fd_cond_cnt [simp]: "bad_fd w (c\<lparr>cond_cnt := m\<rparr>) k = bad_fd w c k"
  by (simp add: bad_fd_def)

lemma select_compute_cond_cnt_loop_eq:
  "fst (select_compute_cond_cnt_loop w ks c) = (if \<exists>k \<in> set ks. bad_fd w c k then - EBADF else 0)
   \<and> (\<exists>m. snd (select_compute_cond_cnt_loop w ks c) = c\<lparr>cond_cnt := m\<rparr>)"
proof (induction ks arbitrary: c)
  case Nil
  have "\<exists>m. c = c\<lparr>cond_cnt := m\<rparr>" by (rule exI [of _ "cond_cnt c"]) simp
  then show ?case by simp
next
  case (Cons k ks)
  obtain m where m: "snd (select_count_cond_per_set w c (sets c k) k) = c\<lparr>cond_cnt := m\<rparr>"
    using select_count_cond_per_set_ctx by blast
  note rc = select_count_cond_per_set_rc [of w c k]
  show ?case
  proof (cases "bad_fd w c k")
    case True
    then show ?thesis using rc m
      by (auto simp: split_beta EBADF_def)
  next
    case False
    then have st: "select_compute_cond_cnt_loop w (k # ks) c
                 = select_compute_cond_cnt_loop w ks (c\<lparr>cond_cnt := m\<rparr>)"
      using rc m by (simp add: split_beta)
    obtain m' where "snd (select_compute_cond_cnt_loop w ks (c\<lparr>cond_cnt := m\<rparr>))
                      = c\<lparr>cond_cnt := m\<rparr>\<lparr>cond_cnt := m'\<rparr>"
      using Cons.IH [of "c\<lparr>cond_cnt := m\<rparr>"] by blast
    then have "snd (select_compute_cond_cnt_loop w (k # ks) c) = c\<lparr>cond_cnt := m'\<rparr>"
      unfolding st by simp
    moreover have "fst (select_compute_cond_cnt_loop w (k # ks) c)
                     = (if \<exists>k \<in> set (k # ks). bad_fd w c k then - EBADF else 0)"
      unfolding st using Cons.IH [of "c\<lparr>cond_cnt := m\<rparr>"] False by simp
    ultimately show ?thesis by blast
  qed
qed

lemma select_compute_cond_cnt_eq:
  "fst (select_compute_cond_cnt w c)
     = (if (tv c = None \<or> 0 < timeout_ticks c) \<and> (bad_fd w c RD \<or> bad_fd w c WR \<or> bad_fd w c EXC)
        then - EBADF else 0)"
  "\<exists>m. snd (select_compute_cond_cnt w c) = c\<lparr>cond_cnt := m\<rparr>"
  "\<not> (tv c = None \<or> 0 < timeout_ticks c) \<Longrightarrow> select_compute_cond_cnt w c = (0, c)"
proof -
  show "\<exists>m. snd (select_compute_cond_cnt w c) = c\<lparr>cond_cnt := m\<rparr>"
  proof (cases "tv c = None \<or> 0 < timeout_ticks c")
    case True
    then show ?thesis
      using select_compute_cond_cnt_loop_eq [of w "[RD, WR, EXC]" c]
      by (simp add: select_compute_cond_cnt_def)
  next
    case False
    then have "select_compute_cond_cnt w c = (0, c)"
      unfolding select_compute_cond_cnt_def by (simp only: if_False)
    then show ?thesis
      by (intro exI [of _ "cond_cnt c"]) simp
  qed
qed (use select_compute_cond_cnt_loop_eq [of w "[RD, WR, EXC]" c] in
      \<open>auto simp: select_compute_cond_cnt_def\<close>)

lemma select_wait_loop_ctx:
  "select_wait_loop cfg c es ev = Some (c', w, ev')
     \<Longrightarrow> (c' = c \<or> (tv c \<noteq> None \<and> (\<exists>t. c' = ctx_store_tv t c))) \<and> w \<in> w_now ` set es"
proof (induction es arbitrary: ev)
  case Nil
  then show ?case by simp
next
  case (Cons e es)
  from Cons.prems show ?case
    using Cons.IH
    by (auto simp: Let_def split: option.splits if_splits)
qed

lemma select_set_kcond_loop_rc:
  "select_set_kcond_loop dbg w k s cnt is idx ev = Done (r0, idx', ev') \<Longrightarrow> r0 = 0 \<or> r0 = - EBADF"
  by (induction "is" arbitrary: idx ev) (auto split: option.splits if_splits)

lemma select_set_kcond_rc:
  "select_set_kcond dbg w n cnt idx ev so k = Done (r0, idx', ev') \<Longrightarrow> r0 = 0 \<or> r0 = - EBADF"
  using select_set_kcond_loop_rc
  by (cases so) (auto simp: select_set_kcond_def)

lemma select_set_kcond_all_rc:
  "select_set_kcond_all dbg w c ks idx ev = Done (r0, idx', ev') \<Longrightarrow> r0 = 0 \<or> r0 = - EBADF"
proof (induction ks arbitrary: idx ev)
  case Nil
  then show ?case by simp
next
  case (Cons k ks)
  show ?case
  proof (cases "select_set_kcond dbg w (nfds c) (cond_cnt c) idx ev (sets c k) k")
    case (Done x)
    obtain r1 i1 e1 where x: "x = (r1, i1, e1)" by (cases x) auto
    have r1: "r1 = 0 \<or> r1 = - EBADF"
      using Done x select_set_kcond_rc by blast
    show ?thesis
    proof (cases "r1 = 0")
      case True
      then show ?thesis using Cons.prems Cons.IH Done x by simp
    next
      case False
      then show ?thesis using Cons.prems Done x r1 by simp
    qed
  next
    case Panicked
    then show ?thesis using Cons.prems by simp
  next
    case Blocked
    then show ?thesis using Cons.prems by simp
  qed
qed

lemma select_wait_on_cond_Done:
  assumes "select_wait_on_cond cfg dbg env c = Done (r0, c', w, ev)"
  shows "r0 = - ENOMEM \<or> r0 = - EBADF
         \<or> (r0 = 0 \<and> (c' = c \<or> (tv c \<noteq> None \<and> (\<exists>t. c' = ctx_store_tv t c)))
            \<and> w \<in> w_now ` set (wakeups env))"
proof (cases "alloc_ok env")
  case False
  then show ?thesis using assms by (simp add: select_wait_on_cond_def)
next
  case True
  show ?thesis
  proof (cases "select_set_kcond_all dbg (w0 env) c [RD, WR, EXC] 0 [AllocWaiter (cond_cnt c)]")
    case (Done x)
    obtain r1 i1 e1 where x: "x = (r1, i1, e1)" by (cases x) auto
    have r1: "r1 = 0 \<or> r1 = - EBADF"
      using Done x select_set_kcond_all_rc by blast
    show ?thesis
    proof (cases "r1 = 0")
      case False
      then show ?thesis
        using assms True Done x r1 by (simp add: select_wait_on_cond_def)
    next
      case z: True
      show ?thesis
      proof (cases "tv c \<noteq> None \<and> dbg \<and> \<not> 0 < timeout_ticks c")
        case True
        then show ?thesis
          using assms \<open>alloc_ok env\<close> Done x z by (simp add: select_wait_on_cond_def)
      next
        case False
        let ?ev = "if tv c \<noteq> None then e1 @ [SetWakeupTimer (timeout_ticks c)] else e1"
        from False have e: "select_wait_on_cond cfg dbg env c
                 = (case select_wait_loop cfg c (wakeups env) ?ev of
                      None \<Rightarrow> Blocked
                    | Some (c', w, ev') \<Rightarrow> Done (0, c', w, ev' @ [FreeWaiter]))"
          using \<open>alloc_ok env\<close> Done x z
          by (auto simp: select_wait_on_cond_def simp del: select_set_kcond_all.simps)
        show ?thesis
        proof (cases "select_wait_loop cfg c (wakeups env) ?ev")
          case None
          then show ?thesis using assms e by simp
        next
          case (Some y)
          obtain c2 w2 e2 where y: "y = (c2, w2, e2)" by (cases y) auto
          have "(c2 = c \<or> (tv c \<noteq> None \<and> (\<exists>t. c2 = ctx_store_tv t c)))
                \<and> w2 \<in> w_now ` set (wakeups env)"
            using Some y select_wait_loop_ctx by blast
          then show ?thesis using assms e Some y by simp
        qed
      qed
    qed
  next
    case Panicked
    then show ?thesis using assms True
      by (simp add: select_wait_on_cond_def del: select_set_kcond_all.simps)
  next
    case Blocked
    then show ?thesis using assms True
      by (simp add: select_wait_on_cond_def del: select_set_kcond_all.simps)
  qed
qed

lemma select_read_user_tv_eq:
  "select_read_user_tv cfg utv 0 =
     (if utv = UBad then (- EFAULT, None, 0)
      else (0, copy_from_user utv,
            case copy_from_user utv of None \<Rightarrow> 0 | Some t \<Rightarrow> select_tv_to_ticks cfg t))"
  by (cases utv) (simp_all add: select_read_user_tv_def)

lemma sys_select_copied_in:
  assumes "0 \<le> sint n" and "sint n \<le> int (MAX_HANDLES cfg)"
    and "\<forall>k. user_sets ur uw ue k \<noteq> UBad" and "utv \<noteq> UBad"
  shows "sys_select cfg dbg env n ur uw ue utv
           = sys_select_tail cfg dbg env
               (select_ctx_of (unat n) (user_sets ur uw ue) utv (copy_from_user utv)
                  (case copy_from_user utv of None \<Rightarrow> 0 | Some t \<Rightarrow> select_tv_to_ticks cfg t))"
  using assms(1,2,4)
  by (cases "copy_from_user utv")
     (simp_all add: sys_select_def Let_def select_read_user_sets_ok [OF assms(3)]
        select_read_user_tv_eq select_ctx_of_def)

lemma sys_select_rejected:
  "sint n < 0 \<or> int (MAX_HANDLES cfg) < sint n
     \<Longrightarrow> sys_select cfg dbg env n ur uw ue utv = Done (select_failed (- EINVAL) [])"
  "0 \<le> sint n \<Longrightarrow> sint n \<le> int (MAX_HANDLES cfg) \<Longrightarrow> user_sets ur uw ue k = UBad
     \<Longrightarrow> sys_select cfg dbg env n ur uw ue utv = Done (select_failed (- EFAULT) [])"
  "0 \<le> sint n \<Longrightarrow> sint n \<le> int (MAX_HANDLES cfg) \<Longrightarrow> \<forall>k. user_sets ur uw ue k \<noteq> UBad
     \<Longrightarrow> utv = UBad
     \<Longrightarrow> sys_select cfg dbg env n ur uw ue utv = Done (select_failed (- EFAULT) [])"
proof -
  show "sys_select cfg dbg env n ur uw ue utv = Done (select_failed (- EINVAL) [])"
    if "sint n < 0 \<or> int (MAX_HANDLES cfg) < sint n"
    using that by (auto simp: sys_select_def Let_def)
  show "sys_select cfg dbg env n ur uw ue utv = Done (select_failed (- EFAULT) [])"
    if "0 \<le> sint n" "sint n \<le> int (MAX_HANDLES cfg)" "user_sets ur uw ue k = UBad"
    using that select_read_user_sets_bad [of "user_sets ur uw ue" k]
    by (auto simp: sys_select_def Let_def split_beta EFAULT_def)
  show "sys_select cfg dbg env n ur uw ue utv = Done (select_failed (- EFAULT) [])"
    if "0 \<le> sint n" "sint n \<le> int (MAX_HANDLES cfg)" "\<forall>k. user_sets ur uw ue k \<noteq> UBad"
      "utv = UBad"
    using that(1,2,4)
    by (simp add: sys_select_def Let_def select_read_user_sets_ok [OF that(3)]
          select_read_user_tv_eq EFAULT_def)
qed

lemma ctx_agrees_cond_cnt:
  "ctx_agrees n us utv c \<Longrightarrow> ctx_agrees n us utv (c\<lparr>cond_cnt := m\<rparr>)"
  by (simp add: ctx_agrees_def)

lemma ctx_agreesD:
  assumes "ctx_agrees n us utv c"
  shows "nfds c = n" and "u_sets c = us"
    and "sets c k = None \<Longrightarrow> copy_from_user (us k) = None"
    and "sets c k = Some a
          \<Longrightarrow> \<exists>s. copy_from_user (us k) = Some s
                  \<and> (\<forall>i. own_bit utv k i \<longrightarrow> (i \<in> a) = (i \<in> s))"
    and "utv = UNull \<Longrightarrow> tv c = None"
proof -
  show "nfds c = n" and "u_sets c = us" and "utv = UNull \<Longrightarrow> tv c = None"
    using assms by (simp_all add: ctx_agrees_def)
  have k: "case sets c k of
             None \<Rightarrow> copy_from_user (us k) = None
           | Some a \<Rightarrow> (\<exists>s. copy_from_user (us k) = Some s
                            \<and> (\<forall>i. own_bit utv k i \<longrightarrow> (i \<in> a) = (i \<in> s)))"
    using assms unfolding ctx_agrees_def by (elim conjE) (erule spec)
  show "sets c k = None \<Longrightarrow> copy_from_user (us k) = None" using k by simp
  show "sets c k = Some a
          \<Longrightarrow> \<exists>s. copy_from_user (us k) = Some s
                  \<and> (\<forall>i. own_bit utv k i \<longrightarrow> (i \<in> a) = (i \<in> s))"
    using k by simp
qed

lemma ctx_agrees_store_tv:
  assumes "ctx_agrees n us utv c" and "utv \<noteq> UNull"
  shows "ctx_agrees n us utv (ctx_store_tv t c)"
proof -
  have "case sets (ctx_store_tv t c) k of
          None \<Rightarrow> copy_from_user (us k) = None
        | Some a \<Rightarrow> (\<exists>s. copy_from_user (us k) = Some s
                         \<and> (\<forall>i. own_bit utv k i \<longrightarrow> (i \<in> a) = (i \<in> s)))" for k
  proof (cases "sets c k")
    case None
    then have "sets (ctx_store_tv t c) k = None"
      by (cases "k = RD") (simp_all add: ctx_store_tv_def)
    then show ?thesis using ctx_agreesD(3) [OF assms(1) None] by simp
  next
    case (Some a)
    then obtain s where s: "copy_from_user (us k) = Some s"
        "\<forall>i. own_bit utv k i \<longrightarrow> (i \<in> a) = (i \<in> s)"
      using ctx_agreesD(4) [OF assms(1)] by blast
    show ?thesis
    proof (cases "k = RD")
      case True
      have "(i \<in> tv_over_set t a) = (i \<in> s)" if "own_bit utv RD i" for i
      proof -
        have "i < 24 \<or> 88 \<le> i" using that assms(2) by (simp add: own_bit_def)
        then show ?thesis using s(2) that True by (simp add: tv_over_set_outside)
      qed
      then show ?thesis using Some s(1) True by (simp add: ctx_store_tv_def)
    next
      case False
      then show ?thesis using Some s by (simp add: ctx_store_tv_def)
    qed
  qed
  moreover have "nfds (ctx_store_tv t c) = n" "u_sets (ctx_store_tv t c) = us"
    using assms(1) by (simp_all add: ctx_agrees_def ctx_store_tv_def)
  ultimately show ?thesis using assms(2) unfolding ctx_agrees_def by blast
qed

lemma ctx_agrees_ctx_of:
  assumes "utv \<noteq> UBad"
  shows "ctx_agrees n us utv (select_ctx_of n us utv (copy_from_user utv) ticks)"
proof -
  let ?c = "\<lparr>nfds = n, sets = (\<lambda>k. copy_from_user (us k)), u_sets = us, tv = None,
             user_tv = utv, cond_cnt = 0, timeout_ticks = ticks\<rparr>"
  have a: "ctx_agrees n us utv ?c"
    by (auto simp: ctx_agrees_def split: option.splits)
  show ?thesis
  proof (cases "copy_from_user utv")
    case None
    then show ?thesis using a by (simp add: select_ctx_of_def)
  next
    case (Some t)
    then have "utv \<noteq> UNull" by auto
    then show ?thesis using ctx_agrees_store_tv [OF a] Some by (simp add: select_ctx_of_def)
  qed
qed

lemma sys_select_tail_Done:
  assumes "sys_select_tail cfg dbg env c0 = Done r" and "ctx_agrees n us utv c0"
  shows "(\<exists>x ev. r = select_failed x ev \<and> x < 0)
         \<or> (\<exists>w c. r = select_report w c (events r) \<and> ctx_agrees n us utv c
                  \<and> (w = w0 env \<or> w = w_slept env \<or> w \<in> w_now ` set (wakeups env)))"
proof -
  obtain r3 c where cc: "select_compute_cond_cnt (w0 env) c0 = (r3, c)"
    by (cases "select_compute_cond_cnt (w0 env) c0") auto
  obtain m where m: "c = c0\<lparr>cond_cnt := m\<rparr>"
    using select_compute_cond_cnt_eq(2) [of "w0 env" c0] cc by auto
  have ag: "ctx_agrees n us utv c" unfolding m by (rule ctx_agrees_cond_cnt [OF assms(2)])
  have r3: "r3 = 0 \<or> r3 = - EBADF"
    using select_compute_cond_cnt_eq(1) [of "w0 env" c0] cc by (auto split: if_splits)
  have ev: "events (select_report w c' e) = e" for w c' e
    by (simp add: select_report_def split_beta)
  show ?thesis
  proof (cases "r3 = 0")
    case False
    then have "r = select_failed r3 []" "r3 < 0"
      using assms(1) cc r3 by (auto simp: sys_select_tail_def EBADF_def)
    then show ?thesis by blast
  next
    case z: True
    show ?thesis
    proof (cases "0 < cond_cnt c")
      case False
      then have "r = select_report (w_slept env) c [KernelSleep (timeout_ticks c)]
                 \<or> r = select_report (w0 env) c []"
        using assms(1) cc z by (auto simp: sys_select_tail_def split: if_splits)
      then show ?thesis
        using ag ev by metis
    next
      case True
      show ?thesis
      proof (cases "select_wait_on_cond cfg dbg env c")
        case (Done x)
        obtain r4 c' w e where x: "x = (r4, c', w, e)" by (cases x) auto
        note d = select_wait_on_cond_Done [OF Done [unfolded x]]
        show ?thesis
        proof (cases "r4 = 0")
          case False
          then have "r = select_failed r4 e" "r4 < 0"
            using assms(1) cc z True Done x d
            by (auto simp: sys_select_tail_def ENOMEM_def EBADF_def)
          then show ?thesis by blast
        next
          case r4: True
          then have t: "c' = c \<or> (tv c \<noteq> None \<and> (\<exists>t. c' = ctx_store_tv t c))"
            and w: "w \<in> w_now ` set (wakeups env)"
            using d by (auto simp: ENOMEM_def EBADF_def)
          have "r = select_report w c' e"
            using assms(1) cc z True Done x r4 by (simp add: sys_select_tail_def)
          moreover have "ctx_agrees n us utv c'"
          proof (cases "c' = c")
            case True
            then show ?thesis using ag by simp
          next
            case False
            then obtain t' where t': "tv c \<noteq> None" "c' = ctx_store_tv t' c" using t by auto
            have "utv \<noteq> UNull" using ctx_agreesD(5) [OF ag] t'(1) by auto
            then show ?thesis using ctx_agrees_store_tv [OF ag] t'(2) by simp
          qed
          ultimately show ?thesis using w ev by metis
        qed
      next
        case Panicked
        then show ?thesis using assms(1) cc z True by (simp add: sys_select_tail_def)
      next
        case Blocked
        then show ?thesis using assms(1) cc z True by (simp add: sys_select_tail_def)
      qed
    qed
  qed
qed

lemma select_tv_to_ticks_zero: "select_tv_to_ticks cfg \<lparr>tv_sec = 0, tv_usec = 0\<rparr> = 0"
  by (simp add: select_tv_to_ticks_def select_tv_tmp_def Let_def)

lemma sys_select_tail_poll:
  assumes "tv c \<noteq> None" and "timeout_ticks c = 0" and "cond_cnt c = 0"
  shows "sys_select_tail cfg dbg env c = Done (select_report (w0 env) c [])"
  using assms select_compute_cond_cnt_eq(3) [of c "w0 env"]
  by (simp add: sys_select_tail_def)


lemma select_report_eval:
  assumes "copy_out_ok c"
  shows "select_report w c ev
           = \<lparr>rc = int (ready_count w c RD) + int (ready_count w c WR) + int (ready_count w c EXC),
              set_writes = set_write w c RD @ set_write w c WR @ set_write w c EXC,
              tv_write = map_option (tv_at_report w c) (tv c), events = ev,
              reported_in = Some w\<rparr>"
  by (simp add: select_report_def select_write_user_sets_ok [OF assms])

lemma select_report_fault:
  assumes "\<not> copy_out_ok c"
  shows "rc (select_report w c ev) = - EFAULT"
  using select_write_user_sets_fault [OF assms, of w]
  by (simp add: select_report_def split_beta)

text \<open>
  Claim C2, as amended. When \<open>nfds\<close> is valid, the sets are readable, and the
  \<open>timeval\<close> is NULL or gives a timeout of at least one tick, a descriptor below
  \<open>nfds\<close> whose bit is set in one of the three sets and that does not resolve to a
  handle makes the call return \<open>-EBADF\<close>. The bit is one that no store into the
  \<open>timeval\<close> reaches (\<open>own_bit\<close>): when a \<open>timeval\<close> is passed, the bits 24 to 87
  of the read set that the kernel looks at are those of the \<open>timeval\<close>.
\<close>

theorem sys_select_bad_fd:
  assumes "0 \<le> sint n" and "sint n \<le> int (MAX_HANDLES cfg)"
    and "\<forall>k. user_sets ur uw ue k \<noteq> UBad"
    and "utv = UNull \<or> (\<exists>t. copy_from_user utv = Some t \<and> 0 < select_tv_to_ticks cfg t)"
    and "copy_from_user (user_sets ur uw ue k) = Some s"
    and "i \<in> s" and "i < unat n" and "own_bit utv k i"
    and "get_fs_handle (w0 env) i = None"
  shows "sys_select cfg dbg env n ur uw ue utv = Done (select_failed (- EBADF) [])
         \<and> rc (select_failed (- EBADF) []) = - EBADF"
proof -
  let ?ticks = "case copy_from_user utv of None \<Rightarrow> 0 | Some t \<Rightarrow> select_tv_to_ticks cfg t"
  let ?c = "select_ctx_of (unat n) (user_sets ur uw ue) utv (copy_from_user utv) ?ticks"
  have utv: "utv \<noteq> UBad" using assms(4) by auto
  have t: "tv ?c = None \<or> 0 < timeout_ticks ?c"
    using assms(4) by (auto simp: select_ctx_of_def ctx_store_tv_def)
  have ag: "ctx_agrees (unat n) (user_sets ur uw ue) utv ?c" by (rule ctx_agrees_ctx_of [OF utv])
  obtain a where a: "sets ?c k = Some a" "\<forall>j. own_bit utv k j \<longrightarrow> (j \<in> a) = (j \<in> s)"
    using ctx_agreesD(3,4) [OF ag, of k] assms(5) by (cases "sets ?c k") auto
  have "i \<in> a" using a(2) assms(6,8) by simp
  moreover have "nfds ?c = unat n" using ag by (simp add: ctx_agrees_def)
  ultimately have "bad_fd (w0 env) ?c k"
    unfolding bad_fd_def using a(1) assms(7,9) by auto
  then have b: "bad_fd (w0 env) ?c RD \<or> bad_fd (w0 env) ?c WR \<or> bad_fd (w0 env) ?c EXC"
    by (cases k) auto
  have "fst (select_compute_cond_cnt (w0 env) ?c) = - EBADF"
    using select_compute_cond_cnt_eq(1) [of "w0 env" ?c] t b by simp
  then have "sys_select_tail cfg dbg env ?c = Done (select_failed (- EBADF) [])"
    by (simp add: sys_select_tail_def split_beta EBADF_def)
  then show ?thesis
    using sys_select_copied_in [OF assms(1,2,3) utv, of dbg env]
    by (simp add: select_failed_def)
qed

lemma reported_below: "{j \<in> reported_set w n k s. j < n} = ready_fds w n k s"
  by (auto simp: reported_set_def ready_fds_def)

lemma set_write_props:
  assumes "ctx_agrees n us utv c" and "\<forall>k. us k \<noteq> UBad"
  shows "(\<Sum>(k', s') \<leftarrow> set_write w c k. int (card {j \<in> s'. j < n})) = int (ready_count w c k)"
    and "map fst (set_write w c k) = filter (\<lambda>k. us k \<noteq> UNull) [k]"
    and "\<forall>(k', s') \<in> set (set_write w c k).
           \<exists>s. copy_from_user (us k') = Some s
                \<and> (\<forall>i. own_bit utv k' i
                         \<longrightarrow> (i \<in> s') = (i \<in> s \<and> (i < n \<longrightarrow> fd_ready w k' i)))"
proof -
  have nf: "nfds c = n" and u: "u_sets c = us" using ctx_agreesD(1,2) [OF assms(1)] by simp_all
  have k: "us k \<noteq> UBad" using assms(2) by simp
  have "((\<Sum>(k', s') \<leftarrow> set_write w c k. int (card {j \<in> s'. j < n})) = int (ready_count w c k))
        \<and> map fst (set_write w c k) = filter (\<lambda>k. us k \<noteq> UNull) [k]
        \<and> (\<forall>(k', s') \<in> set (set_write w c k).
             \<exists>s. copy_from_user (us k') = Some s
                  \<and> (\<forall>i. own_bit utv k' i
                           \<longrightarrow> (i \<in> s') = (i \<in> s \<and> (i < n \<longrightarrow> fd_ready w k' i))))"
  proof (cases "sets c k")
    case None
    then have "copy_from_user (us k) = None" using ctx_agreesD(3) [OF assms(1)] by simp
    then have "us k = UNull" using k by (simp add: copy_from_user_None)
    then show ?thesis using None u by (simp add: set_write_def ready_count_def)
  next
    case (Some a)
    then obtain s where s: "copy_from_user (us k) = Some s"
        "\<forall>i. own_bit utv k i \<longrightarrow> (i \<in> a) = (i \<in> s)"
      using ctx_agreesD(4) [OF assms(1)] by blast
    have nn: "us k \<noteq> UNull" using s(1) by auto
    have w: "set_write w c k = [(k, reported_set w n k a)]"
      using Some nn u nf by (simp add: set_write_def)
    have 1: "(\<Sum>(k', s') \<leftarrow> set_write w c k. int (card {j \<in> s'. j < n})) = int (ready_count w c k)"
      unfolding w using Some nf by (simp add: ready_count_def reported_below)
    have 2: "map fst (set_write w c k) = filter (\<lambda>k. us k \<noteq> UNull) [k]"
      unfolding w using nn by simp
    have "(i \<in> reported_set w n k a) = (i \<in> s \<and> (i < n \<longrightarrow> fd_ready w k i))"
      if "own_bit utv k i" for i
      using that s(2) by (auto simp: reported_set_def)
    then have 3: "\<forall>(k', s') \<in> set (set_write w c k).
             \<exists>s. copy_from_user (us k') = Some s
                  \<and> (\<forall>i. own_bit utv k' i
                           \<longrightarrow> (i \<in> s') = (i \<in> s \<and> (i < n \<longrightarrow> fd_ready w k' i)))"
      unfolding w using s(1) by simp
    show ?thesis using 1 2 3 by blast
  qed
  then show "(\<Sum>(k', s') \<leftarrow> set_write w c k. int (card {j \<in> s'. j < n})) = int (ready_count w c k)"
    and "map fst (set_write w c k) = filter (\<lambda>k. us k \<noteq> UNull) [k]"
    and "\<forall>(k', s') \<in> set (set_write w c k).
           \<exists>s. copy_from_user (us k') = Some s
                \<and> (\<forall>i. own_bit utv k' i
                         \<longrightarrow> (i \<in> s') = (i \<in> s \<and> (i < n \<longrightarrow> fd_ready w k' i)))"
    by blast+
qed

text \<open>
  Claim C4, as amended. For every call of \<open>sys_select\<close> that returns a value that is
  not negative, the value is the number of bits below \<open>nfds\<close> that are set in the sets
  written back, one set for each set passed. A bit from \<open>nfds\<close> on is written back as
  it was passed, and a bit below \<open>nfds\<close> is set in the set written back exactly when it
  was set in the set passed and its descriptor resolved to a handle that was ready at
  report time: so a bit below \<open>nfds\<close> that was set and is cleared belongs to a
  descriptor that had no handle or whose handle was not ready. Both hold for the bits
  that no store into the \<open>timeval\<close> reaches (\<open>own_bit\<close>): when a \<open>timeval\<close> is passed,
  the bits 24 to 87 of the read set are those of the \<open>timeval\<close>, not the caller's.
\<close>

theorem sys_select_return_value:
  assumes "sys_select cfg dbg env n ur uw ue utv = Done r" and "0 \<le> rc r"
  shows "\<exists>w. reported_in r = Some w
           \<and> rc r = (\<Sum>(k, s') \<leftarrow> set_writes r. int (card {j \<in> s'. j < unat n}))
           \<and> map fst (set_writes r) = filter (\<lambda>k. user_sets ur uw ue k \<noteq> UNull) [RD, WR, EXC]
           \<and> (\<forall>(k, s') \<in> set (set_writes r).
                 \<exists>s. copy_from_user (user_sets ur uw ue k) = Some s
                      \<and> (\<forall>i. own_bit utv k i
                               \<longrightarrow> (i \<in> s') = (i \<in> s \<and> (i < unat n \<longrightarrow> fd_ready w k i))))"
proof -
  let ?us = "user_sets ur uw ue"
  let ?ticks = "case copy_from_user utv of None \<Rightarrow> 0 | Some t \<Rightarrow> select_tv_to_ticks cfg t"
  let ?c0 = "select_ctx_of (unat n) ?us utv (copy_from_user utv) ?ticks"
  have neg: "rc (select_failed x ev) = x" for x ev by (simp add: select_failed_def)
  have nf: "r \<noteq> select_failed (- EINVAL) []" "r \<noteq> select_failed (- EFAULT) []"
    using assms(2) by (auto simp: neg EINVAL_def EFAULT_def)
  have "\<not> (sint n < 0 \<or> int (MAX_HANDLES cfg) < sint n)"
    using assms(1) nf(1) sys_select_rejected(1) [of n cfg dbg env ur uw ue utv] by auto
  then have v: "0 \<le> sint n" "sint n \<le> int (MAX_HANDLES cfg)" by simp_all
  have us: "\<forall>k. ?us k \<noteq> UBad"
    using assms(1) nf(2) sys_select_rejected(2) [OF v, of ur uw ue _ dbg env utv] by auto
  have utv: "utv \<noteq> UBad"
    using assms(1) nf(2) sys_select_rejected(3) [OF v us, of utv dbg env] by auto
  have "sys_select_tail cfg dbg env ?c0 = Done r"
    using assms(1) sys_select_copied_in [OF v us utv, of dbg env] by simp
  then obtain w c where r: "r = select_report w c (events r)"
    and ag: "ctx_agrees (unat n) ?us utv c"
    using sys_select_tail_Done [OF _ ctx_agrees_ctx_of [OF utv], of cfg dbg env "unat n" ?us
            ?ticks r] assms(2)
    by (auto simp: neg)
  have ok: "copy_out_ok c"
    using assms(2) select_report_fault [of c w "events r"] r by (auto simp: EFAULT_def)
  have e: "r = \<lparr>rc = int (ready_count w c RD) + int (ready_count w c WR) + int (ready_count w c EXC),
                set_writes = set_write w c RD @ set_write w c WR @ set_write w c EXC,
                tv_write = map_option (tv_at_report w c) (tv c), events = events r,
                reported_in = Some w\<rparr>"
    using r select_report_eval [OF ok, of w "events r"] by simp
  note p = set_write_props [OF ag us, where w=w and k=RD]
    set_write_props [OF ag us, where w=w and k=WR]
    set_write_props [OF ag us, where w=w and k=EXC]
  have 1: "reported_in r = Some w" by (subst e) simp
  have 2: "rc r = (\<Sum>(k, s') \<leftarrow> set_writes r. int (card {j \<in> s'. j < unat n}))"
    by (subst e, subst (2) e) (simp add: p)
  have 3: "map fst (set_writes r) = filter (\<lambda>k. ?us k \<noteq> UNull) [RD, WR, EXC]"
    by (subst e) (simp add: p)
  have 4: "\<forall>(k, s') \<in> set (set_writes r).
             \<exists>s. copy_from_user (?us k) = Some s
                  \<and> (\<forall>i. own_bit utv k i
                           \<longrightarrow> (i \<in> s') = (i \<in> s \<and> (i < unat n \<longrightarrow> fd_ready w k i)))"
    using p(3,6,9) by (subst e) auto
  show ?thesis using 1 2 3 4 by blast
qed

lemma sys_select_poll_eval:
  assumes "0 \<le> sint n" and "sint n \<le> int (MAX_HANDLES cfg)"
    and "\<forall>k. user_sets ur uw ue k \<noteq> UBad"
    and "copy_from_user utv = Some \<lparr>tv_sec = 0, tv_usec = 0\<rparr>"
    and "c = select_ctx_of (unat n) (user_sets ur uw ue) utv (Some \<lparr>tv_sec = 0, tv_usec = 0\<rparr>) 0"
    and "copy_out_ok c"
  shows "sys_select cfg dbg env n ur uw ue utv
           = Done \<lparr>rc = int (ready_count (w0 env) c RD) + int (ready_count (w0 env) c WR)
                          + int (ready_count (w0 env) c EXC),
                    set_writes = set_write (w0 env) c RD @ set_write (w0 env) c WR
                                   @ set_write (w0 env) c EXC,
                    tv_write = Some (tv_at_report (w0 env) c \<lparr>tv_sec = 0, tv_usec = 0\<rparr>),
                    events = [], reported_in = Some (w0 env)\<rparr>"
proof -
  have utv: "utv \<noteq> UBad" using assms(4) by auto
  have c: "tv c \<noteq> None" "timeout_ticks c = 0" "cond_cnt c = 0" "tv c = Some \<lparr>tv_sec = 0, tv_usec = 0\<rparr>"
    by (simp_all add: assms(5) select_ctx_of_def ctx_store_tv_def)
  have "sys_select cfg dbg env n ur uw ue utv = Done (select_report (w0 env) c [])"
    using sys_select_copied_in [OF assms(1,2,3) utv, of dbg env]
      sys_select_tail_poll [OF c(1,2,3), of cfg dbg env]
    by (simp add: assms(4,5) select_tv_to_ticks_zero)
  then show ?thesis
    by (simp add: select_report_eval [OF assms(6)] c(4))
qed

lemma user_sets_rd_only:
  "(\<forall>k. user_sets (URW s) UNull UNull k \<noteq> UBad)"
  "user_sets (URW s) UNull UNull RD = URW s"
  "user_sets (URW s) UNull UNull WR = UNull"
  "user_sets (URW s) UNull UNull EXC = UNull"
  by (auto simp: user_sets_def split: rwe.splits)

lemma tv_of_set_outside:
  assumes "\<forall>i \<in> s. i < 24 \<or> 88 \<le> i"
  shows "tv_of_set s = \<lparr>tv_sec = 0, tv_usec = 0\<rparr>"
proof -
  have "tv_sec (tv_of_set s) = 0"
    by (rule bit_eqI) (use assms in \<open>fastforce simp: bit_tv_of_set\<close>)
  moreover have "tv_usec (tv_of_set s) = 0"
    by (rule bit_eqI) (use assms in \<open>fastforce simp: bit_tv_of_set\<close>)
  ultimately show ?thesis by simp
qed

lemma ctx_rd_only:
  fixes s :: fd_set and n :: nat and w :: world
  defines "c \<equiv> select_ctx_of n (user_sets (URW s) UNull UNull)
                  (URW \<lparr>tv_sec = 0, tv_usec = 0\<rparr>) (Some \<lparr>tv_sec = 0, tv_usec = 0\<rparr>) 0"
  shows "copy_out_ok c"
    and "ready_count w c RD = card (ready_fds w n RD (s - {24..<88}))"
    and "ready_count w c WR = 0"
    and "ready_count w c EXC = 0"
    and "set_write w c RD = [(RD, reported_set w n RD (s - {24..<88}))]"
    and "set_write w c WR = []"
    and "set_write w c EXC = []"
    and "tv_at_report w c \<lparr>tv_sec = 0, tv_usec = 0\<rparr> = \<lparr>tv_sec = 0, tv_usec = 0\<rparr>"
proof -
  have f: "nfds c = n" "sets c RD = Some (s - {24..<88})" "sets c WR = None" "sets c EXC = None"
    "u_sets c = user_sets (URW s) UNull UNull"
    "user_tv c = URW \<lparr>tv_sec = 0, tv_usec = 0\<rparr>"
    by (simp_all add: c_def select_ctx_of_def ctx_store_tv_def user_sets_rd_only tv_over_set_zero)
  show "copy_out_ok c"
    by (simp add: copy_out_ok_def set_out_ok_def f user_sets_rd_only rwe_all)
  show "ready_count w c RD = card (ready_fds w n RD (s - {24..<88}))"
    and "ready_count w c WR = 0" and "ready_count w c EXC = 0"
    by (simp_all add: ready_count_def f)
  show "set_write w c RD = [(RD, reported_set w n RD (s - {24..<88}))]"
    and "set_write w c WR = []" and "set_write w c EXC = []"
    by (simp_all add: set_write_def f user_sets_rd_only)
  have "\<forall>i \<in> reported_set w n RD (s - {24..<88}). i < 24 \<or> 88 \<le> i"
    by (auto simp: reported_set_def)
  then show "tv_at_report w c \<lparr>tv_sec = 0, tv_usec = 0\<rparr> = \<lparr>tv_sec = 0, tv_usec = 0\<rparr>"
    by (simp add: tv_at_report_def f select_set_ready_eq tv_of_set_outside)
qed

lemma sys_select_poll_rd:
  assumes "0 \<le> sint n" and "sint n \<le> int (MAX_HANDLES cfg)"
  shows "sys_select cfg dbg env n (URW s) UNull UNull (URW \<lparr>tv_sec = 0, tv_usec = 0\<rparr>)
           = Done \<lparr>rc = int (card (ready_fds (w0 env) (unat n) RD (s - {24..<88}))),
                    set_writes = [(RD, reported_set (w0 env) (unat n) RD (s - {24..<88}))],
                    tv_write = Some \<lparr>tv_sec = 0, tv_usec = 0\<rparr>, events = [],
                    reported_in = Some (w0 env)\<rparr>"
proof -
  have u: "copy_from_user (URW \<lparr>tv_sec = 0, tv_usec = 0 :: s32\<rparr>) = Some \<lparr>tv_sec = 0, tv_usec = 0\<rparr>"
    by simp
  show ?thesis
    using sys_select_poll_eval [OF assms user_sets_rd_only(1) u refl ctx_rd_only(1), of dbg env s]
    by (simp add: ctx_rd_only)
qed

lemma closed_sets:
  "ready_fds w_closed n k s = {}" "reported_set w_closed n k s = {j \<in> s. n \<le> j}"
  by (auto simp: ready_fds_def reported_set_def fd_ready_def w_closed_def)

lemma poll_closed_0:
  "sys_select cfg100 True env_closed 1 (URW {0}) UNull UNull (URW \<lparr>tv_sec = 0, tv_usec = 0\<rparr>)
     = Done \<lparr>rc = 0, set_writes = [(RD, {})],
              tv_write = Some \<lparr>tv_sec = 0, tv_usec = 0\<rparr>, events = [],
              reported_in = Some w_closed\<rparr>"
proof -
  have "{j \<in> {0::nat} - {24..<88}. 1 \<le> j} = {}" by auto
  then show ?thesis
    using sys_select_poll_rd [of 1 cfg100 True env_closed "{0}"]
    by (simp add: cfg100_def env_closed_def closed_sets)
qed

lemma poll_closed_05:
  "sys_select cfg100 True env_closed 1 (URW {0, 5}) UNull UNull (URW \<lparr>tv_sec = 0, tv_usec = 0\<rparr>)
     = Done \<lparr>rc = 0, set_writes = [(RD, {5})],
              tv_write = Some \<lparr>tv_sec = 0, tv_usec = 0\<rparr>, events = [],
              reported_in = Some w_closed\<rparr>"
proof -
  have "{j \<in> {0::nat, 5} - {24..<88}. 1 \<le> j} = {5}" by auto
  then show ?thesis
    using sys_select_poll_rd [of 1 cfg100 True env_closed "{0, 5}"]
    by (simp add: cfg100_def env_closed_def closed_sets)
qed

lemma open0_sets:
  "ready_fds w_open0 (Suc 0) RD ({0} - {24..<88}) = {0}"
  "reported_set w_open0 (Suc 0) RD ({0} - {24..<88}) = {0}"
  by (auto simp: ready_fds_def reported_set_def fd_ready_def w_open0_def)

lemma poll_open0:
  "sys_select cfg100 True env_open0 1 (URW {0}) UNull UNull (URW \<lparr>tv_sec = 0, tv_usec = 0\<rparr>)
     = Done \<lparr>rc = 1, set_writes = [(RD, {0})],
              tv_write = Some \<lparr>tv_sec = 0, tv_usec = 0\<rparr>, events = [],
              reported_in = Some w_open0\<rparr>"
  using sys_select_poll_rd [of 1 cfg100 True env_open0 "{0}"]
  by (simp add: cfg100_def env_open0_def open0_sets)

text \<open>
  The \<open>timeval\<close> lies inside the kernel copy of the read set. With an empty read set,
  \<open>nfds = 25\<close> and a \<open>timeval\<close> of one second, the kernel looks at descriptor 24,
  which is bit 0 of \<open>tv_sec\<close>, and the call fails with \<open>-EBADF\<close> although the caller
  named no descriptor.
\<close>

lemma sys_select_timeval_in_read_set:
  "sys_select cfg_wide True env_closed 25 (URW {}) UNull UNull (URW \<lparr>tv_sec = 1, tv_usec = 0\<rparr>)
     = Done (select_failed (- EBADF) [])"
proof -
  let ?t = "\<lparr>tv_sec = 1, tv_usec = 0 :: s32\<rparr>"
  let ?us = "user_sets (URW {}) UNull UNull"
  let ?c = "select_ctx_of (unat (25 :: s32)) ?us (URW ?t) (Some ?t) 100"
  have n: "0 \<le> sint (25 :: s32)" "sint (25 :: s32) \<le> int (MAX_HANDLES cfg_wide)"
    by (simp_all add: cfg_wide_def)
  have tk: "select_tv_to_ticks cfg_wide ?t = 100"
    by (simp add: select_tv_to_ticks_def select_tv_tmp_def Let_def cfg_wide_def)
  have utv: "URW ?t \<noteq> UBad" by simp
  have "24 \<in> tv_over_set ?t {}" using tv_over_set_sec [of 0 ?t "{}"] by simp
  then have "bad_fd (w0 env_closed) ?c RD"
    by (auto simp: bad_fd_def select_ctx_of_def ctx_store_tv_def user_sets_def
          env_closed_def w_closed_def)
  moreover have "tv ?c = None \<or> 0 < timeout_ticks ?c"
    by (simp add: select_ctx_of_def ctx_store_tv_def)
  ultimately have "fst (select_compute_cond_cnt (w0 env_closed) ?c) = - EBADF"
    using select_compute_cond_cnt_eq(1) [of "w0 env_closed" ?c] by simp
  then have "sys_select_tail cfg_wide True env_closed ?c = Done (select_failed (- EBADF) [])"
    by (simp add: sys_select_tail_def split_beta EBADF_def)
  then show ?thesis
    using sys_select_copied_in [OF n user_sets_rd_only(1) utv, of True env_closed "{}"]
    by (simp add: tk)
qed


text \<open>
  Claim C2 as it is written fails for a \<open>timeval\<close> equal to zero: the descriptors are
  not resolved before the report phase, which clears the bit and returns 0.
\<close>

theorem sys_select_bad_fd_poll_counterexample:
  "get_fs_handle (w0 env_closed) 0 = None
   \<and> sys_select cfg100 True env_closed 1 (URW {0}) UNull UNull (URW \<lparr>tv_sec = 0, tv_usec = 0\<rparr>)
       = Done \<lparr>rc = 0, set_writes = [(RD, {})],
                tv_write = Some \<lparr>tv_sec = 0, tv_usec = 0\<rparr>, events = [],
                reported_in = Some w_closed\<rparr>
   \<and> (0 :: int) \<noteq> - EBADF"
  using poll_closed_0 by (simp add: env_closed_def w_closed_def EBADF_def)

theorem sys_select_bad_fd_witness:
  "sys_select cfg100 True env_closed 1 (URW {0}) UNull UNull UNull
     = Done (select_failed (- EBADF) [])
   \<and> sys_select cfg100 True env_closed 1 UNull UNull (URO {0}) (URO \<lparr>tv_sec = 1, tv_usec = 0\<rparr>)
       = Done (select_failed (- EBADF) [])
   \<and> rc (select_failed (- EBADF) []) = - 9"
proof -
  have n: "0 \<le> sint (1 :: s32)" "sint (1 :: s32) \<le> int (MAX_HANDLES cfg100)"
    by (simp_all add: cfg100_def)
  have s1: "\<forall>k. user_sets (URW {0}) UNull UNull k \<noteq> UBad"
    and s2: "\<forall>k. user_sets UNull UNull (URO {0}) k \<noteq> UBad"
    by (auto simp: user_sets_def split: rwe.splits)
  have t1: "(UNull :: timeval uptr) = UNull
              \<or> (\<exists>t. copy_from_user (UNull :: timeval uptr) = Some t \<and> 0 < select_tv_to_ticks cfg100 t)"
    by simp
  have "select_tv_to_ticks cfg100 \<lparr>tv_sec = 1, tv_usec = 0\<rparr> = 100"
    by (simp add: select_tv_to_ticks_def select_tv_tmp_def Let_def cfg100_def)
  then have t2: "URO \<lparr>tv_sec = 1, tv_usec = 0\<rparr> = UNull
              \<or> (\<exists>t. copy_from_user (URO \<lparr>tv_sec = 1, tv_usec = 0\<rparr>) = Some t
                      \<and> 0 < select_tv_to_ticks cfg100 t)"
    by simp
  have c1: "copy_from_user (user_sets (URW {0}) UNull UNull RD) = Some {0::nat}"
    and c2: "copy_from_user (user_sets UNull UNull (URO {0}) EXC) = Some {0::nat}"
    by (simp_all add: user_sets_def)
  have i: "(0::nat) \<in> {0}" "0 < unat (1 :: s32)" "get_fs_handle (w0 env_closed) 0 = None"
    by (simp_all add: env_closed_def w_closed_def)
  have b1: "own_bit (UNull :: timeval uptr) RD 0"
    and b2: "own_bit (URO \<lparr>tv_sec = 1, tv_usec = 0\<rparr>) EXC 0"
    by (simp_all add: own_bit_def)
  have h: "get_fs_handle (w0 env_closed) 0 = None" by (simp add: env_closed_def w_closed_def)
  show ?thesis
    using sys_select_bad_fd [OF n s1 t1 c1 i(1,2) b1 h, of True]
      sys_select_bad_fd [OF n s2 t2 c2 i(1,2) b2 h, of True]
    by (simp add: EBADF_def)
qed

text \<open>
  Claim C4 as it is written fails where no descriptor is open: with \<open>nfds = 1\<close> and the
  bits 0 and 5 set, the call returns 0 while bit 5 is still set in the set written back,
  and bit 0 is cleared although descriptor 0 has no handle whose predicate could answer.
\<close>

theorem sys_select_return_value_counterexample:
  "sys_select cfg100 True env_closed 1 (URW {0, 5}) UNull UNull (URW \<lparr>tv_sec = 0, tv_usec = 0\<rparr>)
     = Done \<lparr>rc = 0, set_writes = [(RD, {5})],
              tv_write = Some \<lparr>tv_sec = 0, tv_usec = 0\<rparr>, events = [],
              reported_in = Some w_closed\<rparr>
   \<and> int (card {5 :: nat}) \<noteq> 0
   \<and> (0 :: nat) \<in> {0, 5} \<and> (0 :: nat) \<notin> {5} \<and> get_fs_handle w_closed 0 = None"
  using poll_closed_05 by (simp add: w_closed_def)

theorem sys_select_return_value_witness:
  "sys_select cfg100 True env_open0 1 (URW {0}) UNull UNull (URW \<lparr>tv_sec = 0, tv_usec = 0\<rparr>)
     = Done \<lparr>rc = 1, set_writes = [(RD, {0})],
              tv_write = Some \<lparr>tv_sec = 0, tv_usec = 0\<rparr>, events = [],
              reported_in = Some w_open0\<rparr>
   \<and> (1 :: int) = (\<Sum>(k, s') \<leftarrow> [(RD, {0 :: nat})]. int (card {j \<in> s'. j < unat (1 :: s32)}))
   \<and> fd_ready w_open0 RD 0"
proof -
  let ?r = "\<lparr>rc = 1, set_writes = [(RD, {0})],
              tv_write = Some \<lparr>tv_sec = 0, tv_usec = 0\<rparr>, events = [],
              reported_in = Some w_open0\<rparr>"
  have p: "(0 :: int) \<le> rc ?r" by simp
  obtain w where "reported_in ?r = Some w"
    and s: "rc ?r = (\<Sum>(k, s') \<leftarrow> set_writes ?r. int (card {j \<in> s'. j < unat (1 :: s32)}))"
    and f: "\<forall>(k, s') \<in> set (set_writes ?r).
             \<exists>s. copy_from_user (user_sets (URW {0}) UNull UNull k) = Some s
                  \<and> (\<forall>i. own_bit (URW \<lparr>tv_sec = 0, tv_usec = 0\<rparr>) k i
                           \<longrightarrow> (i \<in> s') = (i \<in> s \<and> (i < unat (1 :: s32) \<longrightarrow> fd_ready w k i)))"
    using sys_select_return_value [OF poll_open0 p] by blast
  then have w: "w = w_open0" by simp
  have "own_bit (URW \<lparr>tv_sec = 0, tv_usec = 0\<rparr>) RD 0" by (simp add: own_bit_def)
  then have "fd_ready w_open0 RD 0" using f unfolding w by (auto simp: user_sets_def)
  then show ?thesis using poll_open0 s by simp
qed

section \<open>Properties of the PCI enumeration\<close>

lemmas bus_defs = BUS_NOT_VISITED_def BUS_TO_VISIT_def BUS_VISITED_def

lemma bus_distinct:
  "BUS_NOT_VISITED \<noteq> BUS_TO_VISIT" "BUS_NOT_VISITED \<noteq> BUS_VISITED" "BUS_TO_VISIT \<noteq> BUS_VISITED"
  "BUS_TO_VISIT \<noteq> BUS_NOT_VISITED" "BUS_VISITED \<noteq> BUS_NOT_VISITED" "BUS_VISITED \<noteq> BUS_TO_VISIT"
  by (simp_all add: bus_defs)

lemma marked_only_refl: "marked_only st st"
  by (simp add: marked_only_def)

lemma marked_only_trans:
  assumes "marked_only a b" and "marked_only b c"
  shows "marked_only a c"
proof -
  obtain m1 w1 where 1: "marks b = marks a @ m1" "\<forall>x \<in> set m1. pci_buses b x \<noteq> BUS_NOT_VISITED"
    "writes b = writes a @ w1"
    "\<forall>x \<in> set w1. fst (snd x) = BUS_NOT_VISITED \<and> snd (snd x) = BUS_TO_VISIT"
    using assms(1) unfolding marked_only_def by blast
  obtain m2 w2 where 2: "marks c = marks b @ m2" "\<forall>x \<in> set m2. pci_buses c x \<noteq> BUS_NOT_VISITED"
    "writes c = writes b @ w2"
    "\<forall>x \<in> set w2. fst (snd x) = BUS_NOT_VISITED \<and> snd (snd x) = BUS_TO_VISIT"
    using assms(2) unfolding marked_only_def by blast
  have ab: "\<forall>x. pci_buses b x = pci_buses a x
               \<or> (pci_buses a x = BUS_NOT_VISITED \<and> pci_buses b x = BUS_TO_VISIT)"
    and bc: "\<forall>x. pci_buses c x = pci_buses b x
               \<or> (pci_buses b x = BUS_NOT_VISITED \<and> pci_buses c x = BUS_TO_VISIT)"
    and v: "visits c = visits a"
    using assms unfolding marked_only_def by simp_all
  have ac: "\<forall>x. pci_buses c x = pci_buses a x
               \<or> (pci_buses a x = BUS_NOT_VISITED \<and> pci_buses c x = BUS_TO_VISIT)"
  proof
    fix x
    show "pci_buses c x = pci_buses a x
            \<or> (pci_buses a x = BUS_NOT_VISITED \<and> pci_buses c x = BUS_TO_VISIT)"
      using ab [rule_format, of x] bc [rule_format, of x] bus_distinct by auto
  qed
  have m: "marks c = marks a @ (m1 @ m2)" using 1(1) 2(1) by simp
  have mm: "\<forall>x \<in> set (m1 @ m2). pci_buses c x \<noteq> BUS_NOT_VISITED"
  proof
    fix x assume "x \<in> set (m1 @ m2)"
    then consider "x \<in> set m1" | "x \<in> set m2" by auto
    then show "pci_buses c x \<noteq> BUS_NOT_VISITED"
    proof cases
      case 1
      then show ?thesis
        using \<open>\<forall>x \<in> set m1. pci_buses b x \<noteq> BUS_NOT_VISITED\<close> bc [rule_format, of x] bus_distinct
        by auto
    next
      case 2
      then show ?thesis using \<open>\<forall>x \<in> set m2. pci_buses c x \<noteq> BUS_NOT_VISITED\<close> by auto
    qed
  qed
  have w: "writes c = writes a @ (w1 @ w2)" using 1(3) 2(3) by simp
  have ww: "\<forall>x \<in> set (w1 @ w2). fst (snd x) = BUS_NOT_VISITED \<and> snd (snd x) = BUS_TO_VISIT"
    using 1(4) 2(4) by auto
  show ?thesis
    unfolding marked_only_def using v ac m mm w ww by blast
qed

lemma marked_only_mark: "marked_only st (pci_mark_bus_to_visit b st)"
proof (cases "pci_buses st b = BUS_NOT_VISITED")
  case True
  then show ?thesis
    unfolding marked_only_def pci_mark_bus_to_visit_def
    by (simp add: bus_distinct)
next
  case False
  then show ?thesis
    unfolding marked_only_def pci_mark_bus_to_visit_def
    by simp
qed

lemma marked_only_fold:
  assumes "\<And>x s. marked_only s (f x s)"
  shows "marked_only st (fold f xs st)"
proof (induction xs arbitrary: st)
  case Nil
  show ?case by (simp add: marked_only_refl)
next
  case (Cons x xs)
  show ?case
    using marked_only_trans [OF assms [of st x] Cons.IH [of "f x st"]] by simp
qed

lemma marked_only_range: "marked_only st (pci_mark_bus_range a b st)"
  unfolding pci_mark_bus_range_def by (rule marked_only_fold) (rule marked_only_mark)

lemma marked_only_device_func: "marked_only st (snd (pci_discover_device_func hw loc nfo st))"
  unfolding pci_discover_device_func_def
  by (simp add: marked_only_refl marked_only_range split: option.splits prod.splits)

lemma marked_only_device: "marked_only st (snd (pci_discover_device hw loc st))"
proof (cases "snd (pci_device_get_info hw loc)")
  case None
  then show ?thesis by (simp add: pci_discover_device_def marked_only_refl)
next
  case (Some nfo)
  obtain ok st1 where d: "pci_discover_device_func hw loc (Some nfo) st = (ok, st1)"
    by (cases "pci_discover_device_func hw loc (Some nfo) st") auto
  have 1: "marked_only st st1"
    using marked_only_device_func [of st hw loc "Some nfo"] d by simp
  have 2: "marked_only st1
             (fold (\<lambda>f s. snd (pci_discover_device_func hw (loc\<lparr>func := of_nat f\<rparr>) None s)) [1..<8] st1)"
    by (rule marked_only_fold) (rule marked_only_device_func)
  show ?thesis
    using Some d 1 marked_only_trans [OF 1 2]
    by (simp add: pci_discover_device_def)
qed

lemma pci_invD:
  assumes "pci_inv st"
  shows "(pci_buses st b = BUS_VISITED) = (b \<in> set (visits st))"
    and "distinct (visits st)"
    and "b \<in> set (marks st) \<Longrightarrow> pci_buses st b \<noteq> BUS_NOT_VISITED"
    and "pci_buses st b = BUS_NOT_VISITED \<or> pci_buses st b = BUS_TO_VISIT
           \<or> pci_buses st b = BUS_VISITED"
    and "x \<in> set (writes st) \<Longrightarrow> advances x"
  using assms unfolding pci_inv_def by blast+

lemma pci_inv_marked_only:
  assumes "pci_inv st" and "marked_only st st'"
  shows "pci_inv st'"
proof -
  obtain ms ws where m: "marks st' = marks st @ ms" "\<forall>x \<in> set ms. pci_buses st' x \<noteq> BUS_NOT_VISITED"
    and w: "writes st' = writes st @ ws"
    "\<forall>x \<in> set ws. fst (snd x) = BUS_NOT_VISITED \<and> snd (snd x) = BUS_TO_VISIT"
    using assms(2) unfolding marked_only_def by blast
  have ch: "\<forall>x. pci_buses st' x = pci_buses st x
               \<or> (pci_buses st x = BUS_NOT_VISITED \<and> pci_buses st' x = BUS_TO_VISIT)"
    and v: "visits st' = visits st"
    using assms(2) unfolding marked_only_def by simp_all
  have a: "\<forall>b. (pci_buses st' b = BUS_VISITED) = (b \<in> set (visits st'))"
  proof
    fix b
    have "(pci_buses st b = BUS_VISITED) = (b \<in> set (visits st))"
      by (rule pci_invD(1) [OF assms(1)])
    then show "(pci_buses st' b = BUS_VISITED) = (b \<in> set (visits st'))"
      using ch [rule_format, of b] v bus_distinct by auto
  qed
  have c: "\<forall>b \<in> set (marks st'). pci_buses st' b \<noteq> BUS_NOT_VISITED"
  proof
    fix b assume "b \<in> set (marks st')"
    then consider "b \<in> set (marks st)" | "b \<in> set ms" using m(1) by auto
    then show "pci_buses st' b \<noteq> BUS_NOT_VISITED"
    proof cases
      case 1
      then have "pci_buses st b \<noteq> BUS_NOT_VISITED" by (rule pci_invD(3) [OF assms(1)])
      then show ?thesis using ch [rule_format, of b] by auto
    next
      case 2
      then show ?thesis using m(2) by simp
    qed
  qed
  have d: "\<forall>b. pci_buses st' b = BUS_NOT_VISITED \<or> pci_buses st' b = BUS_TO_VISIT
               \<or> pci_buses st' b = BUS_VISITED"
  proof
    fix b
    have "pci_buses st b = BUS_NOT_VISITED \<or> pci_buses st b = BUS_TO_VISIT
               \<or> pci_buses st b = BUS_VISITED"
      by (rule pci_invD(4) [OF assms(1)])
    then show "pci_buses st' b = BUS_NOT_VISITED \<or> pci_buses st' b = BUS_TO_VISIT
               \<or> pci_buses st' b = BUS_VISITED"
      using ch [rule_format, of b] by auto
  qed
  have e: "\<forall>x \<in> set (writes st'). advances x"
    using pci_invD(5) [OF assms(1)] w by (auto simp: advances_def)
  have dv: "distinct (visits st')" using pci_invD(2) [OF assms(1)] v by simp
  show ?thesis
    unfolding pci_inv_def using a dv c d e by blast
qed

lemma pci_discover_bus_split:
  "marked_only (pci_mark_bus_as_visited b (st\<lparr>visits := visits st @ [b]\<rparr>))
     (pci_discover_bus hw sg b st)"
  unfolding pci_discover_bus_def Let_def
  by (rule marked_only_fold) (rule marked_only_device)

lemma pci_discover_bus_visits: "visits (pci_discover_bus hw sg b st) = visits st @ [b]"
  using pci_discover_bus_split [of b st hw sg]
  by (auto simp: marked_only_def pci_mark_bus_as_visited_def)

lemma pci_discover_bus_visited: "pci_buses (pci_discover_bus hw sg b st) b = BUS_VISITED"
proof -
  let ?st1 = "pci_mark_bus_as_visited b (st\<lparr>visits := visits st @ [b]\<rparr>)"
  have m: "marked_only ?st1 (pci_discover_bus hw sg b st)"
    by (rule pci_discover_bus_split)
  have "pci_buses ?st1 b = BUS_VISITED" by (simp add: pci_mark_bus_as_visited_def)
  then show ?thesis
    using m bus_distinct unfolding marked_only_def by metis
qed

lemma pci_inv_mark_visited:
  assumes "pci_inv st" and "pci_buses st b \<noteq> BUS_VISITED"
  shows "pci_inv (pci_mark_bus_as_visited b (st\<lparr>visits := visits st @ [b]\<rparr>))"
proof -
  let ?st1 = "pci_mark_bus_as_visited b (st\<lparr>visits := visits st @ [b]\<rparr>)"
  have nb: "b \<notin> set (visits st)" using pci_invD(1) [OF assms(1), of b] assms(2) by simp
  have old: "pci_buses st b = BUS_NOT_VISITED \<or> pci_buses st b = BUS_TO_VISIT"
    using pci_invD(4) [OF assms(1), of b] assms(2) by simp
  have a: "\<forall>x. (pci_buses ?st1 x = BUS_VISITED) = (x \<in> set (visits ?st1))"
    using pci_invD(1) [OF assms(1)] by (simp add: pci_mark_bus_as_visited_def)
  have b: "distinct (visits ?st1)"
    using pci_invD(2) [OF assms(1)] nb by (simp add: pci_mark_bus_as_visited_def)
  have c: "\<forall>x \<in> set (marks ?st1). pci_buses ?st1 x \<noteq> BUS_NOT_VISITED"
    using pci_invD(3) [OF assms(1)] by (simp add: pci_mark_bus_as_visited_def bus_distinct)
  have d: "\<forall>x. pci_buses ?st1 x = BUS_NOT_VISITED \<or> pci_buses ?st1 x = BUS_TO_VISIT
               \<or> pci_buses ?st1 x = BUS_VISITED"
    using pci_invD(4) [OF assms(1)] by (simp add: pci_mark_bus_as_visited_def)
  have "advances (b, pci_buses st b, BUS_VISITED)" using old by (auto simp: advances_def)
  then have e: "\<forall>x \<in> set (writes ?st1). advances x"
    using pci_invD(5) [OF assms(1)] by (auto simp: pci_mark_bus_as_visited_def)
  show ?thesis unfolding pci_inv_def using a b c d e by blast
qed

lemma pci_inv_discover_bus:
  assumes "pci_inv st" and "pci_buses st b \<noteq> BUS_VISITED"
  shows "pci_inv (pci_discover_bus hw sg b st)"
  using pci_discover_bus_split [of b st hw sg] pci_inv_mark_visited [OF assms]
    pci_inv_marked_only by blast

lemma pci_sweep_loop_props:
  assumes "pci_inv st"
  shows "pci_inv (snd (pci_sweep_loop hw sg bs n st))
         \<and> (\<exists>vs. visits (snd (pci_sweep_loop hw sg bs n st)) = visits st @ vs
                  \<and> fst (pci_sweep_loop hw sg bs n st) = n + int (length vs))
         \<and> (fst (pci_sweep_loop hw sg bs n st) = n
              \<longrightarrow> snd (pci_sweep_loop hw sg bs n st) = st
                  \<and> (\<forall>b \<in> set bs. pci_buses st (of_nat b) \<noteq> BUS_TO_VISIT))"
  using assms
proof (induction bs arbitrary: n st)
  case Nil
  then show ?case by simp
next
  case (Cons b bs)
  show ?case
  proof (cases "pci_buses st (of_nat b) = BUS_TO_VISIT")
    case False
    then show ?thesis using Cons.IH [OF Cons.prems, of n] by simp
  next
    case True
    let ?st1 = "pci_discover_bus hw sg (of_nat b) st"
    have i1: "pci_inv ?st1"
      using pci_inv_discover_bus [OF Cons.prems] True bus_distinct by simp
    note IH = Cons.IH [OF i1, of "n + 1"]
    have e: "pci_sweep_loop hw sg (b # bs) n st = pci_sweep_loop hw sg bs (n + 1) ?st1"
      using True by simp
    obtain vs where vs: "visits (snd (pci_sweep_loop hw sg bs (n + 1) ?st1)) = visits ?st1 @ vs"
      "fst (pci_sweep_loop hw sg bs (n + 1) ?st1) = n + 1 + int (length vs)"
      using IH by blast
    have v: "visits (snd (pci_sweep_loop hw sg (b # bs) n st)) = visits st @ (of_nat b # vs)"
      unfolding e vs(1) by (simp add: pci_discover_bus_visits)
    have c: "fst (pci_sweep_loop hw sg (b # bs) n st) = n + int (length (of_nat b # vs :: u8 list))"
      unfolding e vs(2) by simp
    then have ne: "fst (pci_sweep_loop hw sg (b # bs) n st) \<noteq> n" by simp
    have "pci_inv (snd (pci_sweep_loop hw sg (b # bs) n st))" unfolding e using IH by simp
    then show ?thesis using v c ne by blast
  qed
qed

lemma u8_distinct_length:
  assumes "distinct (xs :: u8 list)"
  shows "length xs \<le> 256"
proof -
  have "length xs = card (set xs)" using assms by (simp add: distinct_card)
  also have "\<dots> \<le> card (UNIV :: u8 set)" by (rule card_mono) simp_all
  also have "\<dots> = 256" by (simp add: card_word)
  finally show ?thesis .
qed

lemma pci_visit_marked_terminates:
  assumes "pci_inv st"
  shows "\<exists>st'. pci_visit_marked hw sg st = Some st' \<and> pci_inv st'
               \<and> (\<exists>vs. visits st' = visits st @ vs)
               \<and> (\<forall>b \<in> set [1..<256]. pci_buses st' (of_nat b) \<noteq> BUS_TO_VISIT)"
  using assms
proof (induction "256 - length (visits st)" arbitrary: st rule: less_induct)
  case less
  let ?r = "pci_sweep_loop hw sg [1..<256] 0 st"
  note p = pci_sweep_loop_props [OF less.prems, of hw sg "[1..<256]" 0]
  obtain vs where vs: "visits (snd ?r) = visits st @ vs" "fst ?r = int (length vs)"
    using p by auto
  have u: "pci_visit_marked hw sg st
             = (if 0 < fst ?r then pci_visit_marked hw sg (snd ?r) else Some (snd ?r))"
    by (subst pci_visit_marked.simps) (simp add: pci_sweep_def split_beta)
  show ?case
  proof (cases "0 < fst ?r")
    case True
    have i: "pci_inv (snd ?r)" using p by simp
    have "length (visits (snd ?r)) \<le> 256"
      by (rule u8_distinct_length) (rule pci_invD(2) [OF i])
    moreover have "length (visits st) < length (visits (snd ?r))"
      using True vs by simp
    ultimately have "256 - length (visits (snd ?r)) < 256 - length (visits st)" by simp
    from less.hyps [OF this i]
    obtain st' ws where "pci_visit_marked hw sg (snd ?r) = Some st'" "pci_inv st'"
      "visits st' = visits (snd ?r) @ ws"
      "\<forall>b \<in> set [1..<256]. pci_buses st' (of_nat b) \<noteq> BUS_TO_VISIT"
      by blast
    then show ?thesis using u True vs(1) by auto
  next
    case False
    then have z: "fst ?r = 0" using vs(2) by simp
    then have "snd ?r = st" "\<forall>b \<in> set [1..<256]. pci_buses st (of_nat b) \<noteq> BUS_TO_VISIT"
      using p by simp_all
    then show ?thesis using u False less.prems by auto
  qed
qed

lemma pci_discover_controllers_props:
  assumes "pci_inv st" and "\<forall>f \<in> set fs. pci_buses st (of_nat f) \<noteq> BUS_VISITED"
    and "distinct (map (of_nat :: nat \<Rightarrow> u8) fs)"
  shows "pci_inv (pci_discover_controllers hw sg fs st)
         \<and> (\<exists>vs. visits (pci_discover_controllers hw sg fs st) = visits st @ vs)"
  using assms
proof (induction fs arbitrary: st)
  case Nil
  then show ?case by simp
next
  case (Cons f fs)
  show ?case
  proof (cases "fst (pci_device_get_info hw (pci_make_loc 0 0 0 (of_nat f))) \<noteq> 0")
    case True
    then show ?thesis using Cons.prems(1) by simp
  next
    case False
    let ?b = "of_nat f :: u8"
    let ?st1 = "pci_discover_bus hw sg ?b st"
    have nv: "pci_buses st ?b \<noteq> BUS_VISITED" using Cons.prems(2) by simp
    have i1: "pci_inv ?st1" by (rule pci_inv_discover_bus [OF Cons.prems(1) nv])
    have v1: "visits ?st1 = visits st @ [?b]" by (rule pci_discover_bus_visits)
    have "pci_buses ?st1 (of_nat g) \<noteq> BUS_VISITED" if g: "g \<in> set fs" for g
    proof -
      have "(of_nat f :: u8) \<notin> of_nat ` set fs" using Cons.prems(3) by simp
      then have "(of_nat g :: u8) \<noteq> ?b" using g by (metis image_eqI)
      moreover have "(of_nat g :: u8) \<notin> set (visits st)"
        using pci_invD(1) [OF Cons.prems(1), of "of_nat g"] Cons.prems(2) g by simp
      ultimately have "(of_nat g :: u8) \<notin> set (visits ?st1)" unfolding v1 by simp
      then show ?thesis using pci_invD(1) [OF i1, of "of_nat g"] by simp
    qed
    then have n1: "\<forall>g \<in> set fs. pci_buses ?st1 (of_nat g) \<noteq> BUS_VISITED" by blast
    have d1: "distinct (map (of_nat :: nat \<Rightarrow> u8) fs)" using Cons.prems(3) by simp
    note IH = Cons.IH [OF i1 n1 d1]
    have e: "pci_discover_controllers hw sg (f # fs) st = pci_discover_controllers hw sg fs ?st1"
      using False by simp
    show ?thesis unfolding e using IH v1 by auto
  qed
qed

lemma u8_unat_less: "unat (b :: u8) < 256"
  using unsigned_less [of b] by simp


lemma pci_inv_boot: "pci_inv pci_boot_state"
  by (simp add: pci_inv_def pci_boot_state_def bus_distinct)

lemma upt8: "[0..<8] = [0, 1, 2, 3, 4, 5, 6, 7]"
  by (simp add: upt_rec)

lemma pci_discover_segment_props:
  "\<exists>st'. pci_discover_segment hw sg pci_boot_state = Some st' \<and> pci_inv st'
         \<and> (\<forall>b. pci_buses st' b \<noteq> BUS_TO_VISIT)"
proof (cases "snd (pci_device_get_info hw (pci_make_loc 0 0 0 0))")
  case None
  then have "pci_discover_segment hw sg pci_boot_state = Some pci_boot_state"
    by (simp add: pci_discover_segment_def split_beta)
  moreover have "\<forall>b. pci_buses pci_boot_state b \<noteq> BUS_TO_VISIT"
    by (simp add: pci_boot_state_def bus_distinct)
  ultimately show ?thesis using pci_inv_boot by blast
next
  case (Some nfo)
  show ?thesis
  proof (cases "fst (pci_device_get_info hw (pci_make_loc 0 0 0 0)) \<noteq> 0")
    case True
    then have "pci_discover_segment hw sg pci_boot_state = Some pci_boot_state"
      using Some by (simp add: pci_discover_segment_def split_beta)
    moreover have "\<forall>b. pci_buses pci_boot_state b \<noteq> BUS_TO_VISIT"
      by (simp add: pci_boot_state_def bus_distinct)
    ultimately show ?thesis using pci_inv_boot by blast
  next
    case ok: False
    let ?st0 = "if \<not> multi_func nfo then pci_discover_bus hw sg 0 pci_boot_state
                else pci_discover_controllers hw sg [0..<8] pci_boot_state"
    have e: "pci_discover_segment hw sg pci_boot_state = pci_visit_marked hw sg ?st0"
      using Some ok by (simp add: pci_discover_segment_def split_beta)
    have nv: "pci_buses pci_boot_state b \<noteq> BUS_VISITED" for b
      by (simp add: pci_boot_state_def bus_distinct)
    have "pci_inv ?st0 \<and> 0 \<in> set (visits ?st0)"
    proof (cases "multi_func nfo")
      case False
      then show ?thesis
        using pci_inv_discover_bus [OF pci_inv_boot nv] by (simp add: pci_discover_bus_visits)
    next
      case True
      let ?st1 = "pci_discover_bus hw sg 0 pci_boot_state"
      have i1: "pci_inv ?st1" by (rule pci_inv_discover_bus [OF pci_inv_boot nv])
      have v1: "visits ?st1 = [0]" by (simp add: pci_discover_bus_visits pci_boot_state_def)
      have n1: "\<forall>g \<in> set [1, 2, 3, 4, 5, 6, 7]. pci_buses ?st1 (of_nat g) \<noteq> BUS_VISITED"
        using pci_invD(1) [OF i1] v1 by simp
      have d1: "distinct (map (of_nat :: nat \<Rightarrow> u8) [1, 2, 3, 4, 5, 6, 7])" by simp
      note c = pci_discover_controllers_props [OF i1 n1 d1, of hw sg]
      have "pci_discover_controllers hw sg [0..<8] pci_boot_state
              = pci_discover_controllers hw sg [1, 2, 3, 4, 5, 6, 7] ?st1"
        using ok by (simp add: upt8)
      then show ?thesis using True c v1 by auto
    qed
    then have i0: "pci_inv ?st0" and z0: "0 \<in> set (visits ?st0)" by simp_all
    obtain st' vs where t: "pci_visit_marked hw sg ?st0 = Some st'" "pci_inv st'"
      "visits st' = visits ?st0 @ vs"
      "\<forall>b \<in> set [1..<256]. pci_buses st' (of_nat b) \<noteq> BUS_TO_VISIT"
      using pci_visit_marked_terminates [OF i0, of hw sg] by blast
    have "pci_buses st' b \<noteq> BUS_TO_VISIT" for b
    proof (cases "b = 0")
      case True
      have "0 \<in> set (visits st')" using t(3) z0 by simp
      then have "pci_buses st' 0 = BUS_VISITED" using pci_invD(1) [OF t(2), of 0] by simp
      then show ?thesis using True bus_distinct by simp
    next
      case False
      then have "unat b \<noteq> 0" by (simp add: unat_eq_0)
      moreover have "unat b < 256" by (rule u8_unat_less)
      ultimately have "unat b \<in> set [1..<256]" by simp
      then have "pci_buses st' (of_nat (unat b)) \<noteq> BUS_TO_VISIT" using t(4) by blast
      then show ?thesis by simp
    qed
    then show ?thesis using e t(1,2) by auto
  qed
qed

lemma discover_hw_bridge:
  "(case pci_discover_segment hw_bridge None pci_boot_state of
      None \<Rightarrow> False
    | Some st \<Rightarrow>
        visits st = [0, 1] \<and> marks st = [1]
        \<and> writes st = [(0, 0, 2), (1, 0, 1), (1, 1, 2)] \<and> pci_buses st 1 = 2)"
  by code_simp



lemma init_pci_no_segments: "init_pci hw g [] = pci_discover_segment hw None pci_boot_state"
  by (simp add: init_pci_def)

text \<open>
  Claim C10, as amended. In a run of \<open>init_pci\<close> that finds no MCFG segment, and in
  any call of \<open>pci_discover_segment\<close> with the I/O-port backend that starts with every bus
  \<open>BUS_NOT_VISITED\<close>, every store into the bus-state array moves the entry forward
  (\<open>NOT_VISITED\<close> to \<open>TO_VISIT\<close>, \<open>NOT_VISITED\<close> or \<open>TO_VISIT\<close> to \<open>VISITED\<close>), no
  bus is scanned twice, and the repeat-sweep loop ends: the call returns. In any state,
  \<open>pci_mark_bus_to_visit\<close> changes an entry only when it is \<open>NOT_VISITED\<close>, and
  \<open>pci_discover_bus\<close> sets the entry to \<open>VISITED\<close> first, the scan that follows only
  marks buses, and the entry is still \<open>VISITED\<close> afterwards.
\<close>

theorem pci_bus_state_advances:
  "(\<exists>st'. init_pci hw g [] = Some st'
          \<and> distinct (visits st') \<and> (\<forall>x \<in> set (writes st'). advances x))
   \<and> (\<exists>st'. pci_discover_segment hw sg pci_boot_state = Some st'
          \<and> distinct (visits st') \<and> (\<forall>x \<in> set (writes st'). advances x))
   \<and> pci_buses (pci_mark_bus_to_visit b st)
       = (if pci_buses st b = BUS_NOT_VISITED then (pci_buses st)(b := BUS_TO_VISIT)
          else pci_buses st)
   \<and> marked_only (pci_mark_bus_as_visited b (st\<lparr>visits := visits st @ [b]\<rparr>))
         (pci_discover_bus hw sg b st)
   \<and> pci_buses (pci_discover_bus hw sg b st) b = BUS_VISITED"
proof -
  have 1: "\<exists>st'. pci_discover_segment hw sg' pci_boot_state = Some st'
                 \<and> distinct (visits st') \<and> (\<forall>x \<in> set (writes st'). advances x)" for sg'
  proof -
    obtain st' where s: "pci_discover_segment hw sg' pci_boot_state = Some st'"
      and i: "pci_inv st'"
      using pci_discover_segment_props [of hw sg'] by auto
    show ?thesis using s pci_invD(2) [OF i] pci_invD(5) [OF i] by blast
  qed
  have 0: "\<exists>st'. init_pci hw g [] = Some st'
                 \<and> distinct (visits st') \<and> (\<forall>x \<in> set (writes st'). advances x)"
    unfolding init_pci_no_segments by (rule 1)
  have 2: "pci_buses (pci_mark_bus_to_visit b st)
             = (if pci_buses st b = BUS_NOT_VISITED then (pci_buses st)(b := BUS_TO_VISIT)
                else pci_buses st)"
    by (simp add: pci_mark_bus_to_visit_def)
  show ?thesis
    using 0 1 [of sg] 2 pci_discover_bus_split [of b st hw sg]
      pci_discover_bus_visited [of hw sg b st]
    by blast
qed

theorem pci_bus_state_advances_witness:
  "(case init_pci hw_bridge (\<lambda>i. indet_root) [] of
      None \<Rightarrow> False
    | Some st \<Rightarrow>
        writes st = [(0, 0, 2), (1, 0, 1), (1, 1, 2)] \<and> distinct (visits st)
        \<and> advances (0, 0, 2) \<and> advances (1, 0, 1) \<and> advances (1, 1, 2))
   \<and> pci_buses (pci_mark_bus_to_visit 1 pci_boot_state) 1 = BUS_TO_VISIT
   \<and> pci_buses (pci_discover_bus hw_bridge None 0 pci_boot_state) 0 = BUS_VISITED"
proof -
  note t = pci_bus_state_advances [of hw_bridge "\<lambda>i. indet_root" None 1 pci_boot_state]
  obtain st' where s: "init_pci hw_bridge (\<lambda>i. indet_root) [] = Some st'"
    and d: "distinct (visits st')" and a: "\<forall>x \<in> set (writes st'). advances x"
    using t by blast
  have w: "writes st' = [(0, 0, 2), (1, 0, 1), (1, 1, 2)]"
    using discover_hw_bridge s by (simp add: init_pci_no_segments)
  have m: "pci_buses (pci_mark_bus_to_visit 1 pci_boot_state) 1 = BUS_TO_VISIT"
    using t by (simp add: pci_boot_state_def)
  have v: "pci_buses (pci_discover_bus hw_bridge None 0 pci_boot_state) 0 = BUS_VISITED"
    using pci_bus_state_advances [of hw_bridge "\<lambda>i. indet_root" None 0 pci_boot_state] by blast
  have "(case Some st' of
           None \<Rightarrow> False
         | Some st \<Rightarrow>
             writes st = [(0, 0, 2), (1, 0, 1), (1, 1, 2)] \<and> distinct (visits st)
             \<and> advances (0, 0, 2) \<and> advances (1, 0, 1) \<and> advances (1, 1, 2))"
    using d a w by simp
  then show ?thesis
    unfolding s using m v by (intro conjI)
qed

text \<open>
  Claim C10 as it is written fails for a run of \<open>init_pci\<close> with two MCFG allocations.
  The second call of \<open>pci_discover_segment\<close> works on the array that the first one
  left: when both calls find a root device, bus 0 is handed to \<open>pci_discover_bus\<close>
  twice, and the second store into its entry is from \<open>VISITED\<close> to \<open>VISITED\<close>.
\<close>

lemma init_pci_two_segments:
  "(case init_pci hw_empty (\<lambda>i. indet_root) [seg_a, seg_b] of
      None \<Rightarrow> False
    | Some st \<Rightarrow> visits st = [0, 0] \<and> writes st = [(0, 0, 2), (0, 2, 2)])"
  by code_simp

theorem init_pci_two_segments_counterexample:
  "(case init_pci hw_empty (\<lambda>i. indet_root) [seg_a, seg_b] of
      None \<Rightarrow> False
    | Some st \<Rightarrow> visits st = [0, 0] \<and> writes st = [(0, 0, 2), (0, 2, 2)])
   \<and> \<not> distinct [0 :: u8, 0]
   \<and> \<not> advances (0, BUS_VISITED, BUS_VISITED) \<and> BUS_VISITED = 2"
proof -
  have "\<not> advances (0, BUS_VISITED, BUS_VISITED)"
    by (simp add: advances_def BUS_VISITED_def BUS_NOT_VISITED_def BUS_TO_VISIT_def)
  moreover have "\<not> distinct [0 :: u8, 0]" by simp
  moreover have "BUS_VISITED = 2" by (simp add: BUS_VISITED_def)
  ultimately show ?thesis using init_pci_two_segments by (intro conjI)
qed

text \<open>
  With a single MCFG allocation the run need not return: the enumeration then works on
  the indeterminate contents of its locals, and the loop
  \<open>for (u32 i = secondary_bus; i <= subordinate_bus; i++)\<close> does not end when
  \<open>subordinate_bus\<close> holds \<open>UINT32_MAX\<close>.
\<close>

lemma init_pci_one_segment_hangs: "init_pci hw_empty (\<lambda>i. indet_bridge) [seg_a] = None"
  by code_simp

end
